theory Spec2Isabelle
  imports Complex_Main "HOL-Library.AList" "HOL-Library.List_Lexorder" "HOL-Library.Char_ord"
    "HOL-Library.Log_Nat"
begin

section \<open>Numeric columns\<close>

text \<open>
  A numeric column of the working table (a pandas Series of dtype int64 or float64) is a
  list of cells; a cell is a number or missing (NaN). Numbers are rationals: the
  arithmetic of the source is modelled exactly, without the rounding of float64.
\<close>

type_synonym numval = "rat option"

text \<open>Comparisons and arithmetic with a missing operand: a comparison is False, an
  arithmetic result is missing.\<close>

fun num_lt :: "numval \<Rightarrow> numval \<Rightarrow> bool" where
  "num_lt (Some x) (Some y) = (x < y)"
| "num_lt _ _ = False"

definition num_gt :: "numval \<Rightarrow> numval \<Rightarrow> bool" where
  "num_gt a b = num_lt b a"

fun num_add :: "numval \<Rightarrow> numval \<Rightarrow> numval" where
  "num_add (Some x) (Some y) = Some (x + y)"
| "num_add _ _ = None"

fun num_sub :: "numval \<Rightarrow> numval \<Rightarrow> numval" where
  "num_sub (Some x) (Some y) = Some (x - y)"
| "num_sub _ _ = None"

fun num_mul :: "numval \<Rightarrow> numval \<Rightarrow> numval" where
  "num_mul (Some x) (Some y) = Some (x * y)"
| "num_mul _ _ = None"

fun dropna :: "numval list \<Rightarrow> rat list" where
  "dropna [] = []"
| "dropna (None # vs) = dropna vs"
| "dropna (Some x # vs) = x # dropna vs"

text \<open>
  \<open>Series.quantile(q)\<close> of pandas with its default linear interpolation: missing cells
  are skipped, the rest is sorted, and the result lies at position \<open>q * (n - 1)\<close>,
  interpolated between the two neighbouring order statistics. An empty column gives NaN.
  The source calls it at 0.25 and 0.75 only; outside \<open>[0, 1]\<close> pandas raises, which no
  call of the source reaches, and the model returns None there. For \<open>0 \<le> q \<le> 1\<close> the
  position is at most \<open>n - 1\<close>, so \<open>interpolate\<close> reads inside the sorted list.
\<close>

definition interpolate :: "rat list \<Rightarrow> rat \<Rightarrow> rat" where
  "interpolate xs h =
     (let i = nat \<lfloor>h\<rfloor>; g = h - of_nat i in
      if i + 1 < length xs then xs ! i + g * (xs ! (i + 1) - xs ! i) else xs ! i)"

definition quantile :: "numval list \<Rightarrow> rat \<Rightarrow> numval" where
  "quantile col q =
     (let xs = sort (dropna col); n = length xs in
      if n = 0 \<or> q < 0 \<or> 1 < q then None
      else Some (interpolate xs (q * of_nat (n - 1))))"

text \<open>
  \<open>Series.median()\<close> of pandas: the middle order statistic of the cells that are not
  missing, or the mean of the two middle ones.
\<close>

definition median :: "numval list \<Rightarrow> numval" where
  "median col =
     (let xs = sort (dropna col); n = length xs in
      if n = 0 then None
      else if odd n then Some (xs ! (n div 2))
      else Some ((xs ! (n div 2 - 1) + xs ! (n div 2)) / 2))"

text \<open>\<open>Series.min()\<close> and \<open>Series.max()\<close>: over the cells that are not missing.\<close>

definition col_min :: "numval list \<Rightarrow> numval" where
  "col_min col = (case dropna col of [] \<Rightarrow> None | x # xs \<Rightarrow> Some (fold min xs x))"

definition col_max :: "numval list \<Rightarrow> numval" where
  "col_max col = (case dropna col of [] \<Rightarrow> None | x # xs \<Rightarrow> Some (fold max xs x))"

text \<open>Boolean indexing \<open>data[mask]\<close>: the rows at which the mask is True.\<close>

definition select_rows :: "bool list \<Rightarrow> 'a list \<Rightarrow> 'a list" where
  "select_rows msk rs = map fst (filter snd (zip rs msk))"

section \<open>Outlier bounds (4\_Data\_Preprocessing.py, lines 137-143 and 307-314)\<close>

record outlier_stats =
  Q1 :: numval
  Q3 :: numval
  IQR :: numval
  lower_bound :: numval
  upper_bound :: numval

definition iqr_bounds :: "numval list \<Rightarrow> outlier_stats" where
  "iqr_bounds col =
     (let q1 = quantile col (1 / 4);
          q3 = quantile col (3 / 4);
          iqr = num_sub q3 q1;
          lb = num_sub q1 (num_mul (Some (3 / 2)) iqr);
          ub = num_add q3 (num_mul (Some (3 / 2)) iqr)
      in \<lparr>Q1 = q1, Q3 = q3, IQR = iqr, lower_bound = lb, upper_bound = ub\<rparr>)"

definition outliers_mask :: "numval list \<Rightarrow> bool list" where
  "outliers_mask col =
     (let st = iqr_bounds col in
      map (\<lambda>v. num_lt v (lower_bound st) \<or> num_gt v (upper_bound st)) col)"

definition outlier_count :: "numval list \<Rightarrow> nat" where
  "outlier_count col = length (filter id (outliers_mask col))"

text \<open>The rows shown as outlier records (line 143), seen through the selected column.\<close>

definition outliers :: "numval list \<Rightarrow> numval list" where
  "outliers col = select_rows (outliers_mask col) col"

text \<open>
  Winsorization (lines 329-330): two masked assignments in sequence, the second mask
  computed on the column the first assignment left.
\<close>

definition cap_outliers :: "numval list \<Rightarrow> numval list" where
  "cap_outliers col =
     (let st = iqr_bounds col;
          col1 = map (\<lambda>v. if num_lt v (lower_bound st) then lower_bound st else v) col
      in map (\<lambda>v. if num_gt v (upper_bound st) then upper_bound st else v) col1)"

section \<open>Age groups (4\_Data\_Preprocessing.py, lines 479-491)\<close>

definition categorize_age :: "numval \<Rightarrow> string" where
  "categorize_age age =
     (if num_lt age (Some 18) then ''Child''
      else if num_lt age (Some 35) then ''Young Adult''
      else if num_lt age (Some 55) then ''Middle Age''
      else if num_lt age (Some 75) then ''Senior''
      else ''Elderly'')"

definition age_group :: "numval list \<Rightarrow> string list" where
  "age_group col = map categorize_age col"

section \<open>The worked example\<close>

definition ages :: "numval list" where
  "ages = [Some 10, Some 200, Some 30, Some 32, Some 31]"

text \<open>A column whose only outlier lies above the upper bound.\<close>

definition ages_high :: "numval list" where
  "ages_high = [Some 30, Some 200, Some 30, Some 32, Some 31]"

section \<open>The working table\<close>

text \<open>
  A DataFrame is a list of named columns, in column order; a column has one dtype:
  numeric (int64 or float64), object (strings), datetime64[ns] (nanoseconds since the
  epoch, NaT as missing) or bool (which has no missing cell). In a DataFrame every
  column has \<open>len\<close> cells.
\<close>

type_synonym obj = "string option"

datatype column =
  NumCol "numval list" | ObjCol "obj list" | DateCol "int option list" | BoolCol "bool list"

type_synonym dataframe = "(string \<times> column) list"

datatype cell = Num numval | Obj obj | Date "int option" | Flag bool

fun cells :: "column \<Rightarrow> cell list" where
  "cells (NumCol vs) = map Num vs"
| "cells (ObjCol vs) = map Obj vs"
| "cells (DateCol vs) = map Date vs"
| "cells (BoolCol vs) = map Flag vs"

definition len :: "dataframe \<Rightarrow> nat" where
  "len df = (case df of [] \<Rightarrow> 0 | (n, c) # _ \<Rightarrow> length (cells c))"

definition wf_frame :: "dataframe \<Rightarrow> bool" where
  "wf_frame df = list_all (\<lambda>(n, c). length (cells c) = len df) df"

text \<open>The rows of a frame; in a well-formed frame every read is in range.\<close>

definition rows_of :: "dataframe \<Rightarrow> cell list list" where
  "rows_of df = map (\<lambda>i. map (\<lambda>(n, c). cells c ! i) df) [0..<len df]"

fun col_select :: "bool list \<Rightarrow> column \<Rightarrow> column" where
  "col_select m (NumCol vs) = NumCol (select_rows m vs)"
| "col_select m (ObjCol vs) = ObjCol (select_rows m vs)"
| "col_select m (DateCol vs) = DateCol (select_rows m vs)"
| "col_select m (BoolCol vs) = BoolCol (select_rows m vs)"

text \<open>\<open>data[mask]\<close> on a frame: the same rows of every column.\<close>

definition df_select :: "bool list \<Rightarrow> dataframe \<Rightarrow> dataframe" where
  "df_select m df = map (\<lambda>(n, c). (n, col_select m c)) df"

section \<open>Duplicate rows (4\_Data\_Preprocessing.py, lines 45 and 249-259)\<close>

text \<open>
  \<open>DataFrame.duplicated()\<close> with its default \<open>keep='first'\<close>: a row is marked when an
  equal row stands before it (missing cells compare equal to each other there).
  \<open>DataFrame.drop_duplicates()\<close> keeps the rows that are not marked.
\<close>

fun duplicated_from :: "'a list \<Rightarrow> 'a list \<Rightarrow> bool list" where
  "duplicated_from seen [] = []"
| "duplicated_from seen (r # rs) = (r \<in> set seen) # duplicated_from (r # seen) rs"

definition duplicated :: "dataframe \<Rightarrow> bool list" where
  "duplicated df = duplicated_from [] (rows_of df)"

definition drop_duplicates :: "dataframe \<Rightarrow> dataframe" where
  "drop_duplicates df = df_select (map Not (duplicated df)) df"

text \<open>\<open>data.duplicated().sum()\<close>: the number of marked rows.\<close>

definition duplicate_count :: "dataframe \<Rightarrow> nat" where
  "duplicate_count df = length (filter id (duplicated df))"

section \<open>Risk rates (5\_Data\_Visualization.py, lines 83 and 579-581)\<close>

text \<open>
  \<open>(x == 'Abnormal').mean() * 100\<close>: the mean of a boolean Series is the share of True;
  a missing cell compares unequal; the mean of an empty Series is NaN.
\<close>

definition abnormal_count :: "obj list \<Rightarrow> nat" where
  "abnormal_count xs = length (filter (\<lambda>v. v = Some ''Abnormal'') xs)"

definition abnormal_rate :: "obj list \<Rightarrow> numval" where
  "abnormal_rate xs =
     (if xs = [] then None
      else Some (of_nat (abnormal_count xs) / of_nat (length xs) * 100))"

text \<open>
  The table is seen through the grouping column and the outcome column, row by row.
  \<open>groupby\<close> drops the rows whose key is missing and orders the groups by key.
\<close>

definition group_keys :: "(obj \<times> obj) list \<Rightarrow> string list" where
  "group_keys rs = sort (remdups (concat (map (\<lambda>(k, v). case k of None \<Rightarrow> [] | Some a \<Rightarrow> [a]) rs)))"

definition group_values :: "string \<Rightarrow> (obj \<times> obj) list \<Rightarrow> obj list" where
  "group_values k rs = map snd (filter (\<lambda>(a, v). a = Some k) rs)"

text \<open>
  \<open>sort_values(ascending=False)\<close>: rates in descending order, NaN last. The order
  among equal rates is not fixed by pandas (its default sort is not stable); the model
  inserts one entry after the other, which no property below depends on.
\<close>

fun ranks_before :: "numval \<Rightarrow> numval \<Rightarrow> bool" where
  "ranks_before (Some x) (Some y) = (y \<le> x)"
| "ranks_before (Some x) None = True"
| "ranks_before None (Some y) = False"
| "ranks_before None None = True"

fun insert_ranked :: "string \<times> numval \<Rightarrow> (string \<times> numval) list \<Rightarrow> (string \<times> numval) list" where
  "insert_ranked e [] = [e]"
| "insert_ranked e (x # xs) =
     (if ranks_before (snd e) (snd x) then e # x # xs else x # insert_ranked e xs)"

definition sort_values_desc :: "(string \<times> numval) list \<Rightarrow> (string \<times> numval) list" where
  "sort_values_desc es = foldr insert_ranked es []"

definition risk_analysis :: "(obj \<times> obj) list \<Rightarrow> (string \<times> numval) list" where
  "risk_analysis rs =
     sort_values_desc (map (\<lambda>k. (k, abnormal_rate (group_values k rs))) (group_keys rs))"

text \<open>
  The rate of one group in the words of the specification: the share, as a percentage,
  of the rows of the group whose outcome is Abnormal.
\<close>

definition group_rate :: "string \<Rightarrow> (obj \<times> obj) list \<Rightarrow> rat" where
  "group_rate k rs =
     of_nat (length (filter (\<lambda>(a, v). a = Some k \<and> v = Some ''Abnormal'') rs))
       / of_nat (length (filter (\<lambda>(a, v). a = Some k) rs)) * 100"

definition abnormal_pct :: "(obj \<times> obj) list \<Rightarrow> numval" where
  "abnormal_pct rs = abnormal_rate (map snd rs)"

text \<open>
  The weighted overall rate of the specification: each group's rate times the group's
  share of the rows of the table, summed over the groups that \<open>risk_analysis\<close> returns.
\<close>

definition group_share :: "string \<Rightarrow> (obj \<times> obj) list \<Rightarrow> rat" where
  "group_share k rs = of_nat (length (group_values k rs)) / of_nat (length rs)"

definition weighted_overall_rate :: "(obj \<times> obj) list \<Rightarrow> numval" where
  "weighted_overall_rate rs =
     foldr (\<lambda>(k, r) acc. num_add (num_mul r (Some (group_share k rs))) acc)
       (risk_analysis rs) (Some 0)"

section \<open>The risk rates as float64 values\<close>

text \<open>
  The rates that the program returns are float64 values. \<open>float64\<close> rounds a rational
  to the nearest number with a 53-bit significand, ties to the even significand, as
  IEEE 754 does for every single operation; the exponent range is not bounded, which is
  exact for the rates (they lie between 0 and 100, and a non-zero share of n rows is at
  least 1/n). \<open>binade x\<close> is the exponent e with \<open>2^e \<le> x < 2^(e+1)\<close>.
\<close>

definition round_half_even :: "rat \<Rightarrow> int" where
  "round_half_even m =
     (let f = \<lfloor>m\<rfloor>; d = m - of_int f in
      if d < 1 / 2 then f
      else if 1 / 2 < d then f + 1
      else if even f then f else f + 1)"

definition binade :: "rat \<Rightarrow> int" where
  "binade x =
     (let (p, q) = quotient_of x; k = bitlen p - bitlen q in
      if x < 2 powi k then k - 1 else k)"

definition float64 :: "rat \<Rightarrow> rat" where
  "float64 x =
     (if x = 0 then 0
      else
        let a = \<bar>x\<bar>; e = binade a; r = round_half_even (a * 2 powi (52 - e)) in
        sgn x * of_int r * 2 powi (e - 52))"

text \<open>
  \<open>(x == 'Abnormal').mean() * 100\<close> in float64: the count of True and the length are
  whole numbers (exact), the mean is one rounded division and the percentage one rounded
  multiplication.
\<close>

definition abnormal_rate64 :: "obj list \<Rightarrow> numval" where
  "abnormal_rate64 xs =
     (if xs = [] then None
      else Some (float64 (float64 (of_nat (abnormal_count xs) / of_nat (length xs)) * 100)))"

definition risk_analysis64 :: "(obj \<times> obj) list \<Rightarrow> (string \<times> numval) list" where
  "risk_analysis64 rs =
     sort_values_desc (map (\<lambda>k. (k, abnormal_rate64 (group_values k rs))) (group_keys rs))"

definition abnormal_pct64 :: "(obj \<times> obj) list \<Rightarrow> numval" where
  "abnormal_pct64 rs = abnormal_rate64 (map snd rs)"

text \<open>The float64 rate of one group, as \<open>risk_analysis64\<close> computes it.\<close>

definition group_rate64 :: "string \<Rightarrow> (obj \<times> obj) list \<Rightarrow> rat" where
  "group_rate64 k rs =
     float64 (float64 (of_nat (abnormal_count (group_values k rs))
                        / of_nat (length (group_values k rs))) * 100)"

text \<open>
  The weighted overall rate of the specification on the returned float64 rates: each
  rate times the group's share of the rows, the products and their sum taken exactly.
\<close>

definition weighted_overall_rate64 :: "(obj \<times> obj) list \<Rightarrow> numval" where
  "weighted_overall_rate64 rs =
     foldr (\<lambda>(k, r) acc. num_add (num_mul r (Some (group_share k rs))) acc)
       (risk_analysis64 rs) (Some 0)"

text \<open>
  The distance of two results, NaN when one of them is; and the bound on the distance
  of a rounded percentage from the exact one, with the unit roundoff \<open>2^-53\<close>.
\<close>

fun num_dist :: "numval \<Rightarrow> numval \<Rightarrow> numval" where
  "num_dist (Some x) (Some y) = Some \<bar>x - y\<bar>"
| "num_dist _ _ = None"

definition unit_roundoff :: rat where
  "unit_roundoff = 1 / 2 ^ 53"

definition rate_tolerance :: rat where
  "rate_tolerance = 100 * (2 * unit_roundoff + unit_roundoff ^ 2)"

section \<open>Dates\<close>

text \<open>
  The \<open>.dt\<close> accessors of a datetime64[ns] column, on nanoseconds since the epoch:
  the civil date of a day number in the proleptic Gregorian calendar, the weekday with
  Monday as 0, and the quarter. Time zones are not modelled.
\<close>

definition ns_per_day :: int where
  "ns_per_day = 86400000000000"

definition civil_from_days :: "int \<Rightarrow> int \<times> int \<times> int" where
  "civil_from_days z0 =
     (let z = z0 + 719468;
          era = z div 146097;
          doe = z - era * 146097;
          yoe = (doe - doe div 1460 + doe div 36524 - doe div 146096) div 365;
          doy = doe - (365 * yoe + yoe div 4 - yoe div 100);
          mp = (5 * doy + 2) div 153;
          d = doy - (153 * mp + 2) div 5 + 1;
          m = (if mp < 10 then mp + 3 else mp - 9);
          y = yoe + era * 400 + (if m \<le> 2 then 1 else 0)
      in (y, m, d))"

definition dt_year :: "int \<Rightarrow> int" where
  "dt_year t = fst (civil_from_days (t div ns_per_day))"

definition dt_month :: "int \<Rightarrow> int" where
  "dt_month t = fst (snd (civil_from_days (t div ns_per_day)))"

definition dt_day :: "int \<Rightarrow> int" where
  "dt_day t = snd (snd (civil_from_days (t div ns_per_day)))"

definition dt_dayofweek :: "int \<Rightarrow> int" where
  "dt_dayofweek t = (t div ns_per_day + 3) mod 7"

definition dt_quarter :: "int \<Rightarrow> int" where
  "dt_quarter t = (dt_month t - 1) div 3 + 1"

definition dt_feature :: "(int \<Rightarrow> int) \<Rightarrow> int option list \<Rightarrow> column" where
  "dt_feature f ts = NumCol (map (map_option (\<lambda>t. of_int (f t))) ts)"

text \<open>\<open>(discharge - admission).dt.days\<close>: whole days of the difference, rounded down.\<close>

definition days_between :: "int option list \<Rightarrow> int option list \<Rightarrow> column" where
  "days_between ds as =
     NumCol (map (\<lambda>(d, a). case (d, a) of
                    (Some x, Some y) \<Rightarrow> Some (of_int ((x - y) div ns_per_day))
                  | _ \<Rightarrow> None) (zip ds as))"

text \<open>\<open>'date' in col.lower()\<close> on ASCII names.\<close>

definition lower :: "string \<Rightarrow> string" where
  "lower s = map (\<lambda>c. if CHR ''A'' \<le> c \<and> c \<le> CHR ''Z''
                       then char_of (of_char c + (32 :: nat)) else c) s"

fun contains :: "string \<Rightarrow> string \<Rightarrow> bool" where
  "contains sub [] = (sub = [])"
| "contains sub (c # cs) = (take (length sub) (c # cs) = sub \<or> contains sub cs)"

definition is_date_name :: "string \<Rightarrow> bool" where
  "is_date_name c = contains ''date'' (lower c)"

section \<open>The session store and the preprocessing page\<close>

text \<open>
  The two slots of \<open>st.session_state\<close> that hold tables. A slot that was never written
  is None.
\<close>

record session =
  healthcare_data :: "dataframe option"
  healthcare_data_processed :: "dataframe option"

text \<open>
  The library calls that are taken as parameters: \<open>pd.to_datetime\<close> on a column, which
  returns the timestamps or raises (Inl carries the text of the exception), and
  \<open>np.log1p\<close> on a number.
\<close>

record library =
  to_datetime :: "column \<Rightarrow> string + int option list"
  log1p :: "rat \<Rightarrow> rat"

datatype treatment = Keep_as_is | Remove_outliers | Cap_outliers | Transform_with_log

text \<open>
  What the page shows: one constructor for each \<open>st.warning\<close>, \<open>st.success\<close> and
  \<open>st.error\<close> of the modelled sections, with the values its text interpolates.
\<close>

datatype notice =
    Warn_upload_first
  | Warn_duplicates_found nat
  | Ok_duplicates_removed nat
  | Ok_no_duplicates
  | Ok_converted string
  | Err_converting string string
  | Warn_outliers_found nat string
  | Ok_outliers_removed nat
  | Ok_outliers_capped numval numval
  | Ok_log_applied string
  | Err_log_non_positive
  | Ok_no_outliers string
  | Ok_date_features string
  | Err_date_features string
  | Ok_length_of_stay
  | Err_length_of_stay string
  | Uncaught_exception string

text \<open>
  A section of the script either ends the run with \<open>st.rerun()\<close>, after it wrote the
  session, or lets the script go on with the working copy \<open>data\<close>.
\<close>

datatype flow = Rerun session "notice list" | Continue dataframe "notice list"

record outcome =
  session_after :: session
  notices :: "notice list"
  rerun :: bool

text \<open>
  The last statement of the script that writes the session (line 567):
  \<open>st.session_state['healthcare_data_processed'] = data\<close>.
\<close>

fun finish :: "session \<Rightarrow> flow \<Rightarrow> outcome" where
  "finish s (Rerun s' ns) = \<lparr>session_after = s', notices = ns, rerun = True\<rparr>"
| "finish s (Continue data ns) =
     \<lparr>session_after = s\<lparr>healthcare_data_processed := Some data\<rparr>, notices = ns, rerun = False\<rparr>"

text \<open>Lines 249-262, with the button "Remove Duplicate Records" pressed when it is shown.\<close>

definition remove_duplicate_records :: "session \<Rightarrow> dataframe \<Rightarrow> flow" where
  "remove_duplicate_records s data =
     (let n = duplicate_count data in
      if n > 0 then
        Rerun (s\<lparr>healthcare_data_processed := Some (drop_duplicates data)\<rparr>)
          [Warn_duplicates_found n, Ok_duplicates_removed n]
      else Continue data [Ok_no_duplicates])"

text \<open>Lines 279-288, with the button "Convert c to datetime" pressed when it is shown.\<close>

definition convert_to_datetime :: "library \<Rightarrow> string \<Rightarrow> session \<Rightarrow> dataframe \<Rightarrow> flow" where
  "convert_to_datetime lib c s data =
     (case map_of data c of
        None \<Rightarrow> Continue data []
      | Some (DateCol ts) \<Rightarrow> Continue data []
      | Some col \<Rightarrow>
          if is_date_name c then
            (case to_datetime lib col of
               Inr ts \<Rightarrow>
                 Rerun (s\<lparr>healthcare_data_processed := Some (AList.update c (DateCol ts) data)\<rparr>)
                   [Ok_converted c]
             | Inl e \<Rightarrow> Continue data [Err_converting c e])
          else Continue data [])"

text \<open>
  Lines 296-345, with the button "Apply" pressed when it is shown: the selected column
  is one of the numeric columns, and the button exists only when outliers were found.
\<close>

definition apply_outlier_treatment ::
    "library \<Rightarrow> string \<Rightarrow> treatment \<Rightarrow> session \<Rightarrow> dataframe \<Rightarrow> flow" where
  "apply_outlier_treatment lib c method s data =
     (case map_of data c of
        Some (NumCol col) \<Rightarrow>
          let st = iqr_bounds col; msk = outliers_mask col; n = outlier_count col in
          if n > 0 then
            let (data', shown) =
              (case method of
                 Keep_as_is \<Rightarrow> (data, [])
               | Remove_outliers \<Rightarrow> (df_select (map Not msk) data, [Ok_outliers_removed n])
               | Cap_outliers \<Rightarrow>
                   (AList.update c (NumCol (cap_outliers col)) data,
                    [Ok_outliers_capped (lower_bound st) (upper_bound st)])
               | Transform_with_log \<Rightarrow>
                   if list_all (\<lambda>v. num_gt v (Some 0)) col then
                     (AList.update c (NumCol (map (map_option (log1p lib)) col)) data,
                      [Ok_log_applied c])
                   else (data, [Err_log_non_positive]))
            in Rerun (s\<lparr>healthcare_data_processed := Some data'\<rparr>)
                 (Warn_outliers_found n c # shown)
          else Continue data [Ok_no_outliers c]
      | _ \<Rightarrow> Continue data [])"

text \<open>Lines 350-376, with the button "Extract Date Features" pressed when it is shown.\<close>

definition extract_date_features :: "library \<Rightarrow> string \<Rightarrow> session \<Rightarrow> dataframe \<Rightarrow> flow" where
  "extract_date_features lib c s data =
     (case map_of data c of
        None \<Rightarrow> Continue data []
      | Some col \<Rightarrow>
          let converted =
            (case col of
               DateCol ts \<Rightarrow> Some (Inr (data, ts))
             | _ \<Rightarrow>
                 if is_date_name c then
                   Some (case to_datetime lib col of
                           Inl e \<Rightarrow> Inl e
                         | Inr ts \<Rightarrow> Inr (AList.update c (DateCol ts) data, ts))
                 else None)
          in case converted of
               None \<Rightarrow> Continue data []
             | Some (Inl e) \<Rightarrow> Continue data [Err_date_features e]
             | Some (Inr (d0, ts)) \<Rightarrow>
                 let d1 = AList.update (c @ ''_year'') (dt_feature dt_year ts) d0;
                     d2 = AList.update (c @ ''_month'') (dt_feature dt_month ts) d1;
                     d3 = AList.update (c @ ''_day'') (dt_feature dt_day ts) d2;
                     d4 = AList.update (c @ ''_weekday'') (dt_feature dt_dayofweek ts) d3;
                     d5 = AList.update (c @ ''_quarter'') (dt_feature dt_quarter ts) d4
                 in Rerun (s\<lparr>healthcare_data_processed := Some d5\<rparr>) [Ok_date_features c])"

text \<open>
  Lines 452-475. The loop over the column names keeps the last admission date column and
  the last discharge date column; the button exists when both were found.
\<close>

definition find_stay_columns :: "dataframe \<Rightarrow> string option \<times> string option" where
  "find_stay_columns data =
     foldl (\<lambda>(a, d) col.
              if contains ''admission'' (lower col) \<and> is_date_name col then (Some col, d)
              else if contains ''discharge'' (lower col) \<and> is_date_name col then (a, Some col)
              else (a, d))
       (None, None) (map fst data)"

definition to_datetime_column :: "library \<Rightarrow> dataframe \<Rightarrow> string \<Rightarrow> string + int option list" where
  "to_datetime_column lib data c =
     (case map_of data c of
        None \<Rightarrow> Inl ''KeyError''
      | Some col \<Rightarrow> to_datetime lib col)"

definition calculate_length_of_stay :: "library \<Rightarrow> session \<Rightarrow> dataframe \<Rightarrow> flow" where
  "calculate_length_of_stay lib s data =
     (case find_stay_columns data of
        (Some admission_col, Some discharge_col) \<Rightarrow>
          (case to_datetime_column lib data admission_col of
             Inl e \<Rightarrow> Continue data [Err_length_of_stay e]
           | Inr ta \<Rightarrow>
               let d1 = AList.update admission_col (DateCol ta) data in
               (case to_datetime_column lib d1 discharge_col of
                  Inl e \<Rightarrow> Continue d1 [Err_length_of_stay e]
                | Inr td \<Rightarrow>
                    let d2 = AList.update discharge_col (DateCol td) d1;
                        d3 = AList.update ''length_of_stay'' (days_between td ta) d2
                    in Rerun (s\<lparr>healthcare_data_processed := Some d3\<rparr>) [Ok_length_of_stay]))
      | _ \<Rightarrow> Continue data [])"

text \<open>
  One run of the page with one button pressed. Without an uploaded table the script
  stops at once (lines 25-28); otherwise it works on a copy of the uploaded table
  (line 30), and a run that no \<open>st.rerun()\<close> ends reaches line 567.
\<close>

datatype click =
    No_click
  | Click_remove_duplicates
  | Click_convert_to_datetime string
  | Click_apply_outlier_treatment string treatment
  | Click_extract_date_features string
  | Click_length_of_stay

definition page_run :: "library \<Rightarrow> click \<Rightarrow> session \<Rightarrow> outcome" where
  "page_run lib ck s =
     (case healthcare_data s of
        None \<Rightarrow> \<lparr>session_after = s, notices = [Warn_upload_first], rerun = False\<rparr>
      | Some uploaded \<Rightarrow>
          let data = uploaded in
          finish s
            (case ck of
               No_click \<Rightarrow> Continue data []
             | Click_remove_duplicates \<Rightarrow> remove_duplicate_records s data
             | Click_convert_to_datetime c \<Rightarrow> convert_to_datetime lib c s data
             | Click_apply_outlier_treatment c method \<Rightarrow> apply_outlier_treatment lib c method s data
             | Click_extract_date_features c \<Rightarrow> extract_date_features lib c s data
             | Click_length_of_stay \<Rightarrow> calculate_length_of_stay lib s data))"

text \<open>
  The whole script. Before the Data Cleaning section stands the analysis of the
  categorical columns (lines 158-200): when the table has an object column, line 174
  calls \<open>fig.update_xaxis\<close>, a method that a plotly figure does not have (its method is
  \<open>update_xaxes\<close>); the AttributeError is not caught and ends the run there, before any
  button of the later sections and before line 567. A table without object column
  passes that part untouched and the run is the one of \<open>page_run\<close>.
\<close>

definition categorical_cols :: "dataframe \<Rightarrow> string list" where
  "categorical_cols data =
     map fst (filter (\<lambda>(n, c). case c of ObjCol vs \<Rightarrow> True | _ \<Rightarrow> False) data)"

definition script_run :: "library \<Rightarrow> click \<Rightarrow> session \<Rightarrow> outcome" where
  "script_run lib ck s =
     (case healthcare_data s of
        None \<Rightarrow> page_run lib ck s
      | Some data \<Rightarrow>
          if categorical_cols data \<noteq> [] then
            \<lparr>session_after = s, notices = [Uncaught_exception ''AttributeError''], rerun = False\<rparr>
          else page_run lib ck s)"

text \<open>
  A sample library for the concrete runs below: it reads the two date strings that
  occur there and raises on any other string, as \<open>pd.to_datetime\<close> does on text that is
  no date; it takes a number as nanoseconds since the epoch, and it raises on a bool
  column, as \<open>pd.to_datetime\<close> does with a TypeError; \<open>sample_log1p\<close> is a rational
  approximation of \<open>log (1 + x)\<close>.
\<close>

definition sample_parse :: "string \<Rightarrow> int option" where
  "sample_parse t =
     (if t = ''2024-01-01'' then Some (19723 * ns_per_day)
      else if t = ''2024-01-05'' then Some (19727 * ns_per_day)
      else None)"

definition sample_to_datetime :: "column \<Rightarrow> string + int option list" where
  "sample_to_datetime col =
     (case col of
        DateCol ts \<Rightarrow> Inr ts
      | NumCol vs \<Rightarrow> Inr (map (map_option (\<lambda>x. \<lfloor>x\<rfloor>)) vs)
      | ObjCol vs \<Rightarrow>
          if list_all (\<lambda>v. case v of None \<Rightarrow> True | Some t \<Rightarrow> sample_parse t \<noteq> None) vs
          then Inr (map (\<lambda>v. case v of None \<Rightarrow> None | Some t \<Rightarrow> sample_parse t) vs)
          else Inl ''Unknown datetime string format''
      | BoolCol vs \<Rightarrow> Inl ''dtype bool cannot be converted to datetime64[ns]'')"

definition sample_log1p :: "rat \<Rightarrow> rat" where
  "sample_log1p x = 2 * x / (2 + x)"

definition sample_library :: library where
  "sample_library = \<lparr>to_datetime = sample_to_datetime, log1p = sample_log1p\<rparr>"

section \<open>Sample tables\<close>

text \<open>
  A table of five visits: the fourth row repeats the third, one discharge date is no
  date, and the billing amounts hold a zero and two outliers.
\<close>

definition sample_frame :: dataframe where
  "sample_frame =
     [(''date_of_admission'',
         ObjCol [Some ''2024-01-01'', Some ''2024-01-01'', Some ''2024-01-01'',
                 Some ''2024-01-01'', Some ''2024-01-01'']),
      (''discharge_date'',
         ObjCol [Some ''2024-01-05'', Some ''soon'', Some ''2024-01-05'',
                 Some ''2024-01-05'', Some ''2024-01-05'']),
      (''billing_amount'', NumCol [Some 0, Some 1, Some 1, Some 1, Some 100])]"

text \<open>The session once the page has run to its end on the uploaded sample.\<close>

definition sample_session :: session where
  "sample_session =
     \<lparr>healthcare_data = Some sample_frame, healthcare_data_processed = Some sample_frame\<rparr>"

text \<open>
  A table without object column: the admission dates are whole numbers (day stamps
  read as int64) and the discharge column was read as bool. \<open>stay_upload\<close> is the session
  that the upload leaves, with no processed table yet.
\<close>

definition stay_frame :: dataframe where
  "stay_frame =
     [(''date_of_admission'', NumCol [Some 20240101, Some 20240102]),
      (''discharge_date'', BoolCol [True, False]),
      (''billing_amount'', NumCol [Some 120, Some 80])]"

definition stay_upload :: session where
  "stay_upload = \<lparr>healthcare_data = Some stay_frame, healthcare_data_processed = None\<rparr>"

definition stay_session :: session where
  "stay_session =
     \<lparr>healthcare_data = Some stay_frame, healthcare_data_processed = Some stay_frame\<rparr>"

text \<open>Medical condition and test result of a few visits, row by row.\<close>

definition visits :: "(obj \<times> obj) list" where
  "visits = [(Some ''Flu'', Some ''Abnormal''), (Some ''Asthma'', Some ''Normal''),
             (Some ''Flu'', Some ''Normal''), (Some ''Asthma'', Some ''Normal''),
             (Some ''Cancer'', Some ''Abnormal'')]"

text \<open>Two groups of one and of three visits, no group value missing.\<close>

definition one_and_three :: "(obj \<times> obj) list" where
  "one_and_three = [(Some ''Asthma'', Some ''Normal''), (Some ''Flu'', Some ''Abnormal''),
                    (Some ''Flu'', Some ''Normal''), (Some ''Flu'', Some ''Normal'')]"

text \<open>Two groups, and one visit whose medical condition is missing.\<close>

definition visits_missing_key :: "(obj \<times> obj) list" where
  "visits_missing_key = [(Some ''Flu'', Some ''Abnormal''), (Some ''Asthma'', Some ''Normal''),
                         (None, Some ''Abnormal'')]"

section \<open>Properties of the outlier computation\<close>

subsection \<open>Masks and row selection\<close>


lemma length_select_rows_not:
  "length m = length xs \<Longrightarrow> length (select_rows (map Not m) xs) + length (filter id m) = length xs"
  by (induction m xs rule: list_induct2) (auto simp: select_rows_def)

lemma length_duplicated_from: "length (duplicated_from seen rs) = length rs"
  by (induction rs arbitrary: seen) auto

lemma length_duplicated: "length (duplicated df) = len df"
  by (simp add: duplicated_def length_duplicated_from rows_of_def)

lemma cells_col_select: "cells (col_select m c) = select_rows m (cells c)"
  by (cases c) (auto simp: select_rows_def filter_map o_def zip_map1 split_def map_zip_map)

lemma len_df_select: "len (df_select m df) = length (select_rows m (case df of [] \<Rightarrow> [] | (n, c) # _ \<Rightarrow> cells c))"
  by (cases df) (auto simp: len_def df_select_def cells_col_select select_rows_def)




text \<open>
  C6. On the age column 10, 200, 30, 32, 31 the outlier computation gives Q1 = 30,
  Q3 = 32, IQR = 2 and the bounds 27 and 35; the mask flags exactly 10 and 200; clipping
  sets 10 to 27 and 200 to 35 and leaves 30, 32 and 31 as they are.
\<close>

theorem ages_example:
  "iqr_bounds ages =
     \<lparr>Q1 = Some 30, Q3 = Some 32, IQR = Some 2, lower_bound = Some 27, upper_bound = Some 35\<rparr>
   \<and> outliers_mask ages = [True, True, False, False, False]
   \<and> outliers ages = [Some 10, Some 200]
   \<and> cap_outliers ages = [Some 27, Some 35, Some 30, Some 32, Some 31]"
  by code_simp

theorem ages_example_witness:
  "lower_bound (iqr_bounds ages) = Some 27 \<and> upper_bound (iqr_bounds ages) = Some 35
   \<and> cap_outliers ages ! 1 = Some 35 \<and> cap_outliers ages ! 0 = Some 27"
  using ages_example by simp

subsection \<open>Quantiles of a sorted column\<close>

text \<open>
  The interpolated order statistic grows with its position: this orders the quartiles
  and the median of any column.
\<close>

lemma floor_pos_bounds:
  fixes h :: rat
  assumes "0 \<le> h"
  shows "of_nat (nat \<lfloor>h\<rfloor>) \<le> h" and "h < of_nat (nat \<lfloor>h\<rfloor>) + 1"
proof -
  have "0 \<le> \<lfloor>h\<rfloor>" using assms by simp
  then have e: "(of_nat (nat \<lfloor>h\<rfloor>) :: rat) = of_int \<lfloor>h\<rfloor>" by simp
  show "of_nat (nat \<lfloor>h\<rfloor>) \<le> h" unfolding e by (rule of_int_floor_le)
  show "h < of_nat (nat \<lfloor>h\<rfloor>) + 1" unfolding e by linarith
qed

lemma floor_index_le:
  fixes h :: rat
  assumes "0 \<le> h" "h \<le> of_nat j"
  shows "nat \<lfloor>h\<rfloor> \<le> j"
proof -
  have "\<lfloor>h\<rfloor> \<le> \<lfloor>(of_nat j :: rat)\<rfloor>" using assms(2) by (rule floor_mono)
  then show ?thesis by simp
qed

lemma floor_index_ge:
  fixes h :: rat
  assumes "of_nat j \<le> h"
  shows "j \<le> nat \<lfloor>h\<rfloor>"
proof -
  have "\<lfloor>(of_nat j :: rat)\<rfloor> \<le> \<lfloor>h\<rfloor>" using assms by (rule floor_mono)
  then show ?thesis by simp
qed

lemma interpolate_ge_nth:
  assumes "sorted xs" "of_nat j \<le> h" "h \<le> of_nat (length xs - 1)" "xs \<noteq> []"
  shows "xs ! j \<le> interpolate xs h"
proof -
  define i where "i = nat \<lfloor>h\<rfloor>"
  have h0: "0 \<le> h" using assms(2) by (meson of_nat_0_le_iff order_trans)
  have ji: "j \<le> i" unfolding i_def using assms(2) by (rule floor_index_ge)
  have "i \<le> length xs - 1" unfolding i_def using h0 assms(3) by (rule floor_index_le)
  then have il: "i < length xs" using assms(4) by (cases xs) auto
  have g0: "0 \<le> h - of_nat i" unfolding i_def using floor_pos_bounds(1) [OF h0] by simp
  have a: "xs ! j \<le> xs ! i" using assms(1) ji il by (simp add: sorted_nth_mono)
  show ?thesis
  proof (cases "i + 1 < length xs")
    case True
    then have "xs ! i \<le> xs ! (i + 1)" using assms(1) by (simp add: sorted_nth_mono)
    then have "0 \<le> (h - of_nat i) * (xs ! (i + 1) - xs ! i)" using g0 by simp
    then show ?thesis using a True by (simp add: interpolate_def Let_def i_def [symmetric])
  next
    case False
    then show ?thesis using a by (simp add: interpolate_def Let_def i_def [symmetric])
  qed
qed

lemma interpolate_le_nth:
  assumes "sorted xs" "0 \<le> h" "h \<le> of_nat j" "j < length xs"
  shows "interpolate xs h \<le> xs ! j"
proof -
  define i where "i = nat \<lfloor>h\<rfloor>"
  have ij: "i \<le> j" unfolding i_def using assms(2,3) by (rule floor_index_le)
  have g0: "0 \<le> h - of_nat i" and g1: "h - of_nat i < 1"
    unfolding i_def using floor_pos_bounds [OF assms(2)] by simp_all
  show ?thesis
  proof (cases "i + 1 < length xs")
    case True
    have d: "xs ! i \<le> xs ! (i + 1)" using assms(1) True by (simp add: sorted_nth_mono)
    show ?thesis
    proof (cases "i = j")
      case True
      then have "h - of_nat i = 0" using g0 assms(3) by simp
      then show ?thesis using \<open>i + 1 < length xs\<close> True
        by (simp add: interpolate_def Let_def i_def [symmetric])
    next
      case False
      then have "i + 1 \<le> j" using ij by simp
      then have b: "xs ! (i + 1) \<le> xs ! j" using assms(1,4) by (simp add: sorted_nth_mono)
      have "(h - of_nat i) * (xs ! (i + 1) - xs ! i) \<le> 1 * (xs ! (i + 1) - xs ! i)"
        using g1 d by (intro mult_right_mono) simp_all
      then show ?thesis using b \<open>i + 1 < length xs\<close>
        by (simp add: interpolate_def Let_def i_def [symmetric])
    qed
  next
    case False
    have "xs ! i \<le> xs ! j" using assms(1,4) ij by (simp add: sorted_nth_mono)
    then show ?thesis using False by (simp add: interpolate_def Let_def i_def [symmetric])
  qed
qed

lemma interpolate_mono:
  assumes "sorted xs" "0 \<le> h" "h \<le> h'" "h' \<le> of_nat (length xs - 1)" "xs \<noteq> []"
  shows "interpolate xs h \<le> interpolate xs h'"
proof -
  define i where "i = nat \<lfloor>h\<rfloor>"
  define i' where "i' = nat \<lfloor>h'\<rfloor>"
  have h'0: "0 \<le> h'" using assms(2,3) by simp
  have ii: "i \<le> i'" unfolding i_def i'_def using assms(3) by (simp add: floor_mono nat_mono)
  have "i' \<le> length xs - 1" unfolding i'_def using h'0 assms(4) by (rule floor_index_le)
  then have i'l: "i' < length xs" using assms(5) by (cases xs) auto
  show ?thesis
  proof (cases "i = i'")
    case True
    show ?thesis
    proof (cases "i + 1 < length xs")
      case t: True
      have d: "0 \<le> xs ! (i + 1) - xs ! i" using assms(1) t by (simp add: sorted_nth_mono)
      have "(h - of_nat i) * (xs ! (i + 1) - xs ! i) \<le> (h' - of_nat i) * (xs ! (i + 1) - xs ! i)"
        using assms(3) d by (intro mult_right_mono) simp_all
      then show ?thesis using t True
        by (simp add: interpolate_def Let_def i_def [symmetric] i'_def [symmetric])
    next
      case False
      then show ?thesis using True
        by (simp add: interpolate_def Let_def i_def [symmetric] i'_def [symmetric])
    qed
  next
    case False
    then have s: "i + 1 \<le> i'" using ii by simp
    then have sl: "i + 1 < length xs" using i'l by simp
    have "h < of_nat i + 1" unfolding i_def using floor_pos_bounds(2) [OF assms(2)] .
    then have a: "h \<le> of_nat (i + 1)" by simp
    have "(of_nat i' :: rat) \<le> h'" unfolding i'_def using floor_pos_bounds(1) [OF h'0] .
    moreover have "(of_nat (i + 1) :: rat) \<le> of_nat i'" using s by (simp only: of_nat_le_iff)
    ultimately have b: "of_nat (i + 1) \<le> h'" by simp
    have "interpolate xs h \<le> xs ! (i + 1)"
      using assms(1,2) a sl by (rule interpolate_le_nth)
    also have "\<dots> \<le> interpolate xs h'"
      using assms(1) b assms(4,5) by (rule interpolate_ge_nth)
    finally show ?thesis .
  qed
qed

lemma quantile_mono:
  assumes "dropna col \<noteq> []" "0 \<le> q" "q \<le> q'" "q' \<le> 1"
  shows "\<exists>a b. quantile col q = Some a \<and> quantile col q' = Some b \<and> a \<le> b"
proof -
  let ?xs = "sort (dropna col)"
  have ne: "?xs \<noteq> []" using assms(1) by (metis length_sort length_0_conv)
  have n: "(0 :: rat) \<le> of_nat (length ?xs - 1)" by simp
  have "interpolate ?xs (q * of_nat (length ?xs - 1)) \<le> interpolate ?xs (q' * of_nat (length ?xs - 1))"
  proof (rule interpolate_mono)
    show "sorted ?xs" by simp
    show "0 \<le> q * of_nat (length ?xs - 1)" using assms(2) n by simp
    show "q * of_nat (length ?xs - 1) \<le> q' * of_nat (length ?xs - 1)"
      using assms(3) n by (rule mult_right_mono)
    show "q' * of_nat (length ?xs - 1) \<le> of_nat (length ?xs - 1)"
      using mult_right_mono [OF assms(4) n] by simp
    show "?xs \<noteq> []" by (rule ne)
  qed
  then show ?thesis using assms ne by (simp add: quantile_def Let_def)
qed

lemma median_is_quantile: "median col = quantile col (1 / 2)"
proof (cases "dropna col = []")
  case True
  then show ?thesis by (simp add: median_def quantile_def)
next
  case False
  let ?xs = "sort (dropna col)"
  define n where "n = length ?xs"
  have n0: "n \<noteq> 0" using False unfolding n_def by simp
  show ?thesis
  proof (cases "odd n")
    case True
    then obtain k where k: "n = 2 * k + 1" by (auto elim: oddE)
    have h: "(1 / 2 :: rat) * of_nat (n - 1) = of_nat k" using k by simp
    have "n div 2 = k" using k by simp
    then show ?thesis using True n0 
      unfolding median_def quantile_def Let_def n_def [symmetric] h
      by (simp add: interpolate_def)
  next
    case False
    then obtain k where k: "n = 2 * k" by (auto elim: evenE)
    then have k0: "0 < k" using n0 by simp
    have h: "(1 / 2 :: rat) * of_nat (n - 1) = of_nat (k - 1) + 1 / 2"
      using k k0 by (simp add: of_nat_diff field_simps)
    have fl: "\<lfloor>(of_nat (k - 1) :: rat) + 1 / 2\<rfloor> = int (k - 1)"
      by (simp add: floor_unique)
    have d: "n div 2 = k" using k by simp
    have lt: "k - 1 + 1 < n" using k k0 by simp
    have k1: "Suc (k - Suc 0) = k" using k0 by simp
    show ?thesis using False n0 lt
      unfolding median_def quantile_def Let_def n_def [symmetric] h interpolate_def fl d
      by (simp add: k1 field_simps)
  qed
qed


lemma set_dropna: "set (dropna col) = {x. Some x \<in> set col}"
  by (induction col rule: dropna.induct) auto

lemma iqr_bounds_Some:
  assumes "dropna col \<noteq> []"
  shows "\<exists>a b. Q1 (iqr_bounds col) = Some a \<and> Q3 (iqr_bounds col) = Some b \<and> a \<le> b
           \<and> IQR (iqr_bounds col) = Some (b - a)
           \<and> lower_bound (iqr_bounds col) = Some (a - 3 / 2 * (b - a))
           \<and> upper_bound (iqr_bounds col) = Some (b + 3 / 2 * (b - a))"
proof -
  obtain a b where "quantile col (1 / 4) = Some a" "quantile col (3 / 4) = Some b" "a \<le> b"
    using quantile_mono [OF assms, of "1 / 4" "3 / 4"] by auto
  then show ?thesis by (simp add: iqr_bounds_def Let_def)
qed

lemma iqr_bounds_None:
  assumes "dropna col = []"
  shows "lower_bound (iqr_bounds col) = None \<and> upper_bound (iqr_bounds col) = None
         \<and> IQR (iqr_bounds col) = None"
  using assms by (simp add: iqr_bounds_def Let_def quantile_def)

text \<open>
  C7. For every numeric column whose interquartile range is strictly positive (such a
  column is not empty), the lower bound, Q1, the median, Q3 and the upper bound are all
  numbers and lower bound \<open>\<le>\<close> Q1 \<open>\<le>\<close> median \<open>\<le>\<close> Q3 \<open>\<le>\<close> upper bound.
\<close>

theorem bounds_order:
  assumes "IQR (iqr_bounds col) = Some d" and "0 < d"
  shows "\<exists>l a m b u.
           lower_bound (iqr_bounds col) = Some l \<and> Q1 (iqr_bounds col) = Some a
           \<and> median col = Some m \<and> Q3 (iqr_bounds col) = Some b
           \<and> upper_bound (iqr_bounds col) = Some u
           \<and> l \<le> a \<and> a \<le> m \<and> m \<le> b \<and> b \<le> u"
proof -
  have ne: "dropna col \<noteq> []" using assms(1) iqr_bounds_None by fastforce
  obtain a b where ab: "Q1 (iqr_bounds col) = Some a" "Q3 (iqr_bounds col) = Some b"
    "IQR (iqr_bounds col) = Some (b - a)"
    "lower_bound (iqr_bounds col) = Some (a - 3 / 2 * (b - a))"
    "upper_bound (iqr_bounds col) = Some (b + 3 / 2 * (b - a))"
    using iqr_bounds_Some [OF ne] by blast
  have d: "0 < b - a" using assms ab(3) by simp
  have q: "quantile col (1 / 4) = Some a" "quantile col (3 / 4) = Some b"
    using ab(1,2) by (simp_all add: iqr_bounds_def Let_def)
  obtain m where m: "median col = Some m" "a \<le> m"
    using quantile_mono [OF ne, of "1 / 4" "1 / 2"] q(1) by (auto simp: median_is_quantile)
  have "m \<le> b"
    using quantile_mono [OF ne, of "1 / 2" "3 / 4"] q(2) m(1) by (auto simp: median_is_quantile)
  moreover have "a - 3 / 2 * (b - a) \<le> a" and "b \<le> b + 3 / 2 * (b - a)" using d by simp_all
  ultimately show ?thesis using ab m by blast
qed

theorem bounds_order_witness:
  "IQR (iqr_bounds ages) = Some 2
   \<and> (\<exists>l a m b u.
           lower_bound (iqr_bounds ages) = Some l \<and> Q1 (iqr_bounds ages) = Some a
           \<and> median ages = Some m \<and> Q3 (iqr_bounds ages) = Some b
           \<and> upper_bound (iqr_bounds ages) = Some u
           \<and> l \<le> a \<and> a \<le> m \<and> m \<le> b \<and> b \<le> u)"
proof -
  have h: "IQR (iqr_bounds ages) = Some 2" by code_simp
  have p: "(0 :: rat) < 2" by simp
  show ?thesis using h bounds_order [OF h p] by blast
qed

subsection \<open>Winsorization\<close>

lemma fold_min_Min: "fold min xs (x :: rat) = Min (set (x # xs))"
  by (rule Min.set_eq_fold [symmetric])

lemma fold_max_Max: "fold max xs (x :: rat) = Max (set (x # xs))"
  by (rule Max.set_eq_fold [symmetric])

lemma col_min_eq:
  assumes "l \<in> set (dropna col)" "\<forall>x \<in> set (dropna col). l \<le> x"
  shows "col_min col = Some l"
proof -
  obtain y ys where c: "dropna col = y # ys" using assms(1) by (cases "dropna col") auto
  have "Min (set (y # ys)) = l" using assms unfolding c by (intro Min_eqI) auto
  then show ?thesis by (simp add: col_min_def c fold_min_Min del: set_simps)
qed

lemma col_max_eq:
  assumes "u \<in> set (dropna col)" "\<forall>x \<in> set (dropna col). x \<le> u"
  shows "col_max col = Some u"
proof -
  obtain y ys where c: "dropna col = y # ys" using assms(1) by (cases "dropna col") auto
  have "Max (set (y # ys)) = u" using assms unfolding c by (intro Max_eqI) auto
  then show ?thesis by (simp add: col_max_def c fold_max_Max del: set_simps)
qed

lemma cap_outliers_map:
  assumes "lower_bound (iqr_bounds col) = Some l" "upper_bound (iqr_bounds col) = Some u" "l \<le> u"
  shows "cap_outliers col = map (map_option (\<lambda>v. if v < l then l else if u < v then u else v)) col"
proof -
  have h: "(if num_gt (if num_lt c (Some l) then Some l else c) (Some u) then Some u
         else (if num_lt c (Some l) then Some l else c))
        = map_option (\<lambda>v. if v < l then l else if u < v then u else v) c" for c
    using assms(3) by (cases c) (auto simp: num_gt_def)
  show ?thesis unfolding cap_outliers_def Let_def assms(1,2) by (simp only: map_map o_def h)
qed

lemma outliers_nonempty:
  assumes "0 < outlier_count col"
  shows "dropna col \<noteq> []"
proof
  assume e: "dropna col = []"
  have "lower_bound (iqr_bounds col) = None" "upper_bound (iqr_bounds col) = None"
    using iqr_bounds_None [OF e] by simp_all
  then have "outliers_mask col = map (\<lambda>v. False) col"
    by (simp add: outliers_mask_def Let_def num_gt_def)
  then have "outlier_count col = 0" by (simp add: outlier_count_def)
  with assms show False by simp
qed

text \<open>
  C4, as amended. For every numeric column containing outliers, clipping to the IQR
  bounds yields a column of the same length in which every value lies between the lower
  and the upper bound; its minimum equals the lower bound when some value was below the
  lower bound, and its maximum equals the upper bound when some value was above the
  upper bound; every value that was within the bounds, and every missing cell, is
  unchanged.
\<close>

theorem cap_outliers_spec:
  assumes "0 < outlier_count col"
  shows "\<exists>l u. lower_bound (iqr_bounds col) = Some l \<and> upper_bound (iqr_bounds col) = Some u
           \<and> l \<le> u
           \<and> length (cap_outliers col) = length col
           \<and> (\<forall>i < length col. \<forall>v. col ! i = Some v \<longrightarrow>
                cap_outliers col ! i = Some (if v < l then l else if u < v then u else v))
           \<and> (\<forall>i < length col. col ! i = None \<longrightarrow> cap_outliers col ! i = None)
           \<and> (\<forall>x. Some x \<in> set (cap_outliers col) \<longrightarrow> l \<le> x \<and> x \<le> u)
           \<and> ((\<exists>x. Some x \<in> set col \<and> x < l) \<longrightarrow> col_min (cap_outliers col) = Some l)
           \<and> ((\<exists>x. Some x \<in> set col \<and> u < x) \<longrightarrow> col_max (cap_outliers col) = Some u)"
proof -
  have ne: "dropna col \<noteq> []" using assms by (rule outliers_nonempty)
  obtain a b where ab: "a \<le> b"
    "lower_bound (iqr_bounds col) = Some (a - 3 / 2 * (b - a))"
    "upper_bound (iqr_bounds col) = Some (b + 3 / 2 * (b - a))"
    using iqr_bounds_Some [OF ne] by blast
  define l where "l = a - 3 / 2 * (b - a)"
  define u where "u = b + 3 / 2 * (b - a)"
  have "0 \<le> 3 / 2 * (b - a)" using ab(1) by simp
  then have lu: "l \<le> u" using ab(1) unfolding l_def u_def by linarith
  have lb: "lower_bound (iqr_bounds col) = Some l" and ub: "upper_bound (iqr_bounds col) = Some u"
    using ab by (simp_all add: l_def u_def)
  let ?f = "\<lambda>v. if v < l then l else if u < v then u else v"
  have m: "cap_outliers col = map (map_option ?f) col"
    using lb ub lu by (rule cap_outliers_map)
  have len: "length (cap_outliers col) = length col" by (simp add: m)
  have some: "\<forall>i < length col. \<forall>v. col ! i = Some v \<longrightarrow> cap_outliers col ! i = Some (?f v)"
    by (simp add: m)
  have none: "\<forall>i < length col. col ! i = None \<longrightarrow> cap_outliers col ! i = None"
    by (simp add: m)
  have rng: "\<forall>x. Some x \<in> set (cap_outliers col) \<longrightarrow> l \<le> x \<and> x \<le> u"
  proof (intro allI impI)
    fix x assume "Some x \<in> set (cap_outliers col)"
    then obtain c where "Some x = map_option ?f c" unfolding m by auto
    then obtain v where "x = ?f v" by (cases c) auto
    then show "l \<le> x \<and> x \<le> u" using lu by (auto split: if_splits)
  qed
  have mn: "(\<exists>x. Some x \<in> set col \<and> x < l) \<longrightarrow> col_min (cap_outliers col) = Some l"
  proof
    assume "\<exists>x. Some x \<in> set col \<and> x < l"
    then obtain x where x: "Some x \<in> set col" "x < l" by blast
    have "map_option ?f (Some x) \<in> set (cap_outliers col)" 
      unfolding m set_map using x(1) by (rule imageI)
    then have "Some l \<in> set (cap_outliers col)" using x(2) by simp
    then have "l \<in> set (dropna (cap_outliers col))" by (simp add: set_dropna)
    moreover have "\<forall>y \<in> set (dropna (cap_outliers col)). l \<le> y" using rng by (simp add: set_dropna)
    ultimately show "col_min (cap_outliers col) = Some l" by (rule col_min_eq)
  qed
  have mx: "(\<exists>x. Some x \<in> set col \<and> u < x) \<longrightarrow> col_max (cap_outliers col) = Some u"
  proof
    assume "\<exists>x. Some x \<in> set col \<and> u < x"
    then obtain x where x: "Some x \<in> set col" "u < x" by blast
    have "map_option ?f (Some x) \<in> set (cap_outliers col)" 
      unfolding m set_map using x(1) by (rule imageI)
    moreover have "\<not> x < l" using x(2) lu by simp
    ultimately have "Some u \<in> set (cap_outliers col)" using x(2) by simp
    then have "u \<in> set (dropna (cap_outliers col))" by (simp add: set_dropna)
    moreover have "\<forall>y \<in> set (dropna (cap_outliers col)). y \<le> u" using rng by (simp add: set_dropna)
    ultimately show "col_max (cap_outliers col) = Some u" by (rule col_max_eq)
  qed
  show ?thesis using lb ub lu len some none rng mn mx by blast
qed

theorem cap_outliers_spec_witness:
  "0 < outlier_count ages
   \<and> (\<exists>l u. lower_bound (iqr_bounds ages) = Some l \<and> upper_bound (iqr_bounds ages) = Some u
        \<and> l \<le> u \<and> length (cap_outliers ages) = length ages
        \<and> col_min (cap_outliers ages) = Some l \<and> col_max (cap_outliers ages) = Some u)"
proof -
  have h: "0 < outlier_count ages" by code_simp
  obtain l u where lu: "lower_bound (iqr_bounds ages) = Some l"
    "upper_bound (iqr_bounds ages) = Some u" "l \<le> u" "length (cap_outliers ages) = length ages"
    "(\<exists>x. Some x \<in> set ages \<and> x < l) \<longrightarrow> col_min (cap_outliers ages) = Some l"
    "(\<exists>x. Some x \<in> set ages \<and> u < x) \<longrightarrow> col_max (cap_outliers ages) = Some u"
    using cap_outliers_spec [OF h] by blast
  have "lower_bound (iqr_bounds ages) = Some 27" "upper_bound (iqr_bounds ages) = Some 35"
    by code_simp+
  then have l: "l = 27" and u: "u = 35" using lu(1,2) by simp_all
  have "Some 10 \<in> set ages \<and> (10 :: rat) < 27" "Some 200 \<in> set ages \<and> (35 :: rat) < 200"
    by (simp_all add: ages_def)
  then have "col_min (cap_outliers ages) = Some l" "col_max (cap_outliers ages) = Some u"
    using lu(5,6) unfolding l u by blast+
  then show ?thesis using h lu(1-4) by blast
qed

text \<open>
  The claim as first stated fails on the column 30, 200, 30, 32, 31: its only outlier is
  above the upper bound, and after clipping the minimum is 30, not the lower bound 27.
\<close>

theorem cap_outliers_min_counterexample:
  "0 < outlier_count ages_high
   \<and> lower_bound (iqr_bounds ages_high) = Some 27
   \<and> col_min (cap_outliers ages_high) = Some 30
   \<and> col_min (cap_outliers ages_high) \<noteq> lower_bound (iqr_bounds ages_high)"
  by code_simp

section \<open>Properties of duplicate removal\<close>

lemma len_drop_duplicates: "len (drop_duplicates df) + duplicate_count df = len df"
proof (cases df)
  case Nil
  then show ?thesis
    by (simp add: drop_duplicates_def duplicate_count_def duplicated_def rows_of_def len_def df_select_def)
next
  case (Cons p rest)
  obtain n c where p: "p = (n, c)" by (cases p)
  have l: "length (duplicated df) = length (cells c)"
    using Cons p by (simp add: length_duplicated len_def)
  have "len (drop_duplicates df) = length (select_rows (map Not (duplicated df)) (cells c))"
    using Cons p by (simp add: drop_duplicates_def len_df_select)
  with length_select_rows_not [OF l] show ?thesis
    using Cons p by (simp add: duplicate_count_def len_def)
qed

lemma duplicated_from_nth:
  "i < length rs \<Longrightarrow>
   duplicated_from seen rs ! i \<longleftrightarrow> (rs ! i \<in> set seen \<or> (\<exists>j<i. rs ! j = rs ! i))"
proof (induction rs arbitrary: seen i)
  case Nil
  then show ?case by simp
next
  case (Cons r rs)
  show ?case
  proof (cases i)
    case 0
    then show ?thesis by simp
  next
    case (Suc k)
    then have k: "k < length rs" using Cons.prems by simp
    have "(\<exists>j<Suc k. (r # rs) ! j = rs ! k) \<longleftrightarrow> (r = rs ! k \<or> (\<exists>j<k. rs ! j = rs ! k))"
      by (auto simp: less_Suc_eq_0_disj)
    then show ?thesis using Cons.IH [OF k, of "r # seen"] Suc by auto
  qed
qed

lemma duplicated_nth:
  "i < len df \<Longrightarrow> duplicated df ! i \<longleftrightarrow> (\<exists>j<i. rows_of df ! j = rows_of df ! i)"
proof -
  assume "i < len df"
  then have "i < length (rows_of df)" by (simp add: rows_of_def)
  then show ?thesis unfolding duplicated_def by (simp add: duplicated_from_nth)
qed

lemma wf_sample_frame: "wf_frame sample_frame"
  by code_simp

lemma dedup_run:
  assumes "healthcare_data s = Some data" and "0 < duplicate_count data"
  shows "page_run lib Click_remove_duplicates s =
     \<lparr>session_after = s\<lparr>healthcare_data_processed := Some (drop_duplicates data)\<rparr>,
      notices = [Warn_duplicates_found (duplicate_count data),
                 Ok_duplicates_removed (duplicate_count data)],
      rerun = True\<rparr>"
  using assms by (simp add: page_run_def remove_duplicate_records_def Let_def)

text \<open>
  C5. For every table, removing the duplicate rows reduces the row count by exactly the
  number of duplicate rows counted before the operation, a duplicate row being a row
  identical to an earlier row; the button "Remove Duplicate Records" stores a table with
  that many rows fewer and reports that count.
\<close>

theorem drop_duplicates_len:
  "(\<forall>i < len df. duplicated df ! i \<longleftrightarrow> (\<exists>j<i. rows_of df ! j = rows_of df ! i))
   \<and> duplicate_count df = length (filter id (duplicated df))
   \<and> len (drop_duplicates df) + duplicate_count df = len df
   \<and> len (drop_duplicates df) = len df - duplicate_count df
   \<and> (healthcare_data s = Some df \<and> 0 < duplicate_count df \<longrightarrow>
        (\<exists>t. healthcare_data_processed (session_after (page_run lib Click_remove_duplicates s)) = Some t
             \<and> len t = len df - duplicate_count df
             \<and> notices (page_run lib Click_remove_duplicates s) =
                 [Warn_duplicates_found (duplicate_count df),
                  Ok_duplicates_removed (duplicate_count df)]))"
proof -
  have a: "len (drop_duplicates df) + duplicate_count df = len df" by (rule len_drop_duplicates)
  then have b: "len (drop_duplicates df) = len df - duplicate_count df" by simp
  have "healthcare_data s = Some df \<and> 0 < duplicate_count df \<longrightarrow>
        (\<exists>t. healthcare_data_processed (session_after (page_run lib Click_remove_duplicates s)) = Some t
             \<and> len t = len df - duplicate_count df
             \<and> notices (page_run lib Click_remove_duplicates s) =
                 [Warn_duplicates_found (duplicate_count df),
                  Ok_duplicates_removed (duplicate_count df)])"
    using b by (auto simp: dedup_run)
  moreover have "\<forall>i < len df. duplicated df ! i \<longleftrightarrow> (\<exists>j<i. rows_of df ! j = rows_of df ! i)"
    by (simp add: duplicated_nth)
  moreover have "duplicate_count df = length (filter id (duplicated df))"
    by (simp add: duplicate_count_def)
  ultimately show ?thesis using a b by blast
qed

theorem drop_duplicates_len_witness:
  "len sample_frame = 5 \<and> duplicate_count sample_frame = 1
   \<and> len (drop_duplicates sample_frame) = 4
   \<and> (\<exists>t. healthcare_data_processed
             (session_after (page_run sample_library Click_remove_duplicates sample_session)) = Some t
          \<and> len t = 4)"
proof -
  have l: "len sample_frame = 5" by code_simp
  have d: "duplicate_count sample_frame = 1" by code_simp
  have h: "healthcare_data sample_session = Some sample_frame \<and> 0 < duplicate_count sample_frame"
    using d by (simp add: sample_session_def)
  have "len sample_frame - duplicate_count sample_frame = 4" using l d by simp
  with drop_duplicates_len [of sample_frame sample_session sample_library] h l d
  show ?thesis by metis
qed

section \<open>Properties of the age groups\<close>

text \<open>
  C10. On a numeric age the categorization returns exactly one of five labels: Child
  iff age < 18, Young Adult iff 18 \<open>\<le>\<close> age < 35, Middle Age iff 35 \<open>\<le>\<close> age < 55, Senior iff
  55 \<open>\<le>\<close> age < 75, Elderly iff age \<open>\<ge>\<close> 75.
\<close>

theorem categorize_age_boundaries:
  "(categorize_age (Some a) = ''Child'' \<longleftrightarrow> a < 18)
   \<and> (categorize_age (Some a) = ''Young Adult'' \<longleftrightarrow> 18 \<le> a \<and> a < 35)
   \<and> (categorize_age (Some a) = ''Middle Age'' \<longleftrightarrow> 35 \<le> a \<and> a < 55)
   \<and> (categorize_age (Some a) = ''Senior'' \<longleftrightarrow> 55 \<le> a \<and> a < 75)
   \<and> (categorize_age (Some a) = ''Elderly'' \<longleftrightarrow> 75 \<le> a)
   \<and> categorize_age (Some a) \<in> {''Child'', ''Young Adult'', ''Middle Age'', ''Senior'', ''Elderly''}"
  by (auto simp: categorize_age_def)

theorem categorize_age_boundaries_witness:
  "categorize_age (Some 17) = ''Child'' \<and> categorize_age (Some 18) = ''Young Adult''
   \<and> categorize_age (Some 35) = ''Middle Age'' \<and> categorize_age (Some 55) = ''Senior''
   \<and> categorize_age (Some (149 / 2)) = ''Senior'' \<and> categorize_age (Some 75) = ''Elderly''"
  using categorize_age_boundaries [of 17] categorize_age_boundaries [of 18]
    categorize_age_boundaries [of 35] categorize_age_boundaries [of 55]
    categorize_age_boundaries [of "149 / 2"] categorize_age_boundaries [of 75]
  by simp

section \<open>Properties of the risk rates\<close>

lemma set_insert_ranked: "set (insert_ranked e xs) = insert e (set xs)"
  by (induction xs) auto

lemma set_sort_values_desc: "set (sort_values_desc es) = set es"
  by (induction es) (simp_all add: sort_values_desc_def set_insert_ranked)

lemma distinct_insert_ranked:
  "distinct (map fst (insert_ranked e xs)) \<longleftrightarrow> fst e \<notin> fst ` set xs \<and> distinct (map fst xs)"
  by (induction xs) (auto simp: set_insert_ranked)

lemma distinct_sort_values_desc:
  "distinct (map fst es) \<Longrightarrow> distinct (map fst (sort_values_desc es))"
  by (induction es)
     (simp_all add: sort_values_desc_def distinct_insert_ranked set_sort_values_desc [unfolded sort_values_desc_def])

lemma ranks_before_total: "\<not> ranks_before a b \<Longrightarrow> ranks_before b a"
  by (cases a; cases b) auto

lemma ranks_before_trans: "ranks_before a b \<Longrightarrow> ranks_before b c \<Longrightarrow> ranks_before a c"
  by (cases a; cases b; cases c) auto

lemma sorted_insert_ranked:
  "sorted_wrt (\<lambda>a b. ranks_before (snd a) (snd b)) xs \<Longrightarrow>
   sorted_wrt (\<lambda>a b. ranks_before (snd a) (snd b)) (insert_ranked e xs)"
proof (induction xs)
  case Nil
  then show ?case by simp
next
  case (Cons x xs)
  show ?case
  proof (cases "ranks_before (snd e) (snd x)")
    case True
    then have "\<forall>y \<in> set xs. ranks_before (snd e) (snd y)"
      using Cons.prems by (auto intro: ranks_before_trans)
    then show ?thesis using True Cons.prems by simp
  next
    case False
    then have "ranks_before (snd x) (snd e)" by (rule ranks_before_total)
    then show ?thesis using False Cons by (auto simp: set_insert_ranked)
  qed
qed

lemma sorted_sort_values_desc:
  "sorted_wrt (\<lambda>a b. ranks_before (snd a) (snd b)) (sort_values_desc es)"
  by (induction es) (simp_all add: sort_values_desc_def sorted_insert_ranked)

lemma sum_insert_ranked:
  "sum_list (map f (insert_ranked e xs)) = (f e :: rat) + sum_list (map f xs)"
  by (induction xs) auto

lemma sum_sort_values_desc:
  "sum_list (map f (sort_values_desc es)) = (sum_list (map f es) :: rat)"
  by (induction es) (simp_all add: sort_values_desc_def sum_insert_ranked)

lemma set_group_keys: "set (group_keys rs) = {k. Some k \<in> fst ` set rs}"
  by (auto simp: group_keys_def split: option.splits prod.splits) force

lemma distinct_group_keys: "distinct (group_keys rs)"
  by (simp add: group_keys_def)

lemma length_group_values:
  "length (group_values k rs) = length (filter (\<lambda>(a, v). a = Some k) rs)"
  by (simp add: group_values_def)

lemma abnormal_group_values:
  "abnormal_count (group_values k rs) =
     length (filter (\<lambda>(a, v). a = Some k \<and> v = Some ''Abnormal'') rs)"
proof -
  have "filter (\<lambda>v. v = Some ''Abnormal'') (map snd (filter (\<lambda>(a, v). a = Some k) rs))
        = map snd (filter (\<lambda>(a, v). a = Some k \<and> v = Some ''Abnormal'') rs)"
    by (induction rs) auto
  then show ?thesis by (simp add: abnormal_count_def group_values_def)
qed

lemma group_values_nonempty:
  assumes "k \<in> set (group_keys rs)"
  shows "group_values k rs \<noteq> []"
proof -
  obtain v where "(Some k, v) \<in> set rs" using assms by (auto simp: set_group_keys)
  then have "v \<in> set (group_values k rs)" by (force simp: group_values_def)
  then show ?thesis by auto
qed

lemma risk_analysis_rates:
  "risk_analysis rs = sort_values_desc (map (\<lambda>k. (k, Some (group_rate k rs))) (group_keys rs))"
proof -
  have "map (\<lambda>k. (k, abnormal_rate (group_values k rs))) (group_keys rs)
        = map (\<lambda>k. (k, Some (group_rate k rs))) (group_keys rs)"
  proof (rule map_cong [OF refl])
    fix k assume "k \<in> set (group_keys rs)"
    then have "group_values k rs \<noteq> []" by (rule group_values_nonempty)
    then show "(k, abnormal_rate (group_values k rs)) = (k, Some (group_rate k rs))"
      by (simp add: abnormal_rate_def group_rate_def abnormal_group_values length_group_values)
  qed
  then show ?thesis unfolding risk_analysis_def by (rule arg_cong)
qed

lemma set_risk_analysis:
  "set (risk_analysis rs) = (\<lambda>k. (k, Some (group_rate k rs))) ` {k. Some k \<in> fst ` set rs}"
  by (simp add: risk_analysis_rates set_sort_values_desc set_group_keys)

text \<open>
  C2. For every table with a grouping column and an outcome column, the risk-rate
  aggregation returns one entry for each group (each value of the grouping column that
  is not missing), each exactly once; the rate of a group is the share, as a percentage,
  of the rows of that group whose outcome equals the literal Abnormal; and the rates are
  numbers in descending order.
\<close>

theorem risk_analysis_spec:
  "set (map fst (risk_analysis rs)) = {k. Some k \<in> fst ` set rs}
   \<and> distinct (map fst (risk_analysis rs))
   \<and> (\<forall>k r. (k, r) \<in> set (risk_analysis rs) \<longrightarrow>
        0 < length (filter (\<lambda>(a, v). a = Some k) rs)
        \<and> r = Some (of_nat (length (filter (\<lambda>(a, v). a = Some k \<and> v = Some ''Abnormal'') rs))
                    / of_nat (length (filter (\<lambda>(a, v). a = Some k) rs)) * 100))
   \<and> (\<exists>rates. map snd (risk_analysis rs) = map Some rates \<and> sorted (rev rates))"
proof -
  let ?R = "risk_analysis rs"
  have keys: "set (map fst ?R) = {k. Some k \<in> fst ` set rs}"
    by (simp add: set_risk_analysis image_image)
  have dist: "distinct (map fst ?R)"
    unfolding risk_analysis_rates
    by (rule distinct_sort_values_desc) (simp add: o_def distinct_group_keys)
  have rate: "\<forall>k r. (k, r) \<in> set ?R \<longrightarrow>
        0 < length (filter (\<lambda>(a, v). a = Some k) rs)
        \<and> r = Some (of_nat (length (filter (\<lambda>(a, v). a = Some k \<and> v = Some ''Abnormal'') rs))
                    / of_nat (length (filter (\<lambda>(a, v). a = Some k) rs)) * 100)"
  proof (intro allI impI)
    fix k r assume "(k, r) \<in> set ?R"
    then have k: "Some k \<in> fst ` set rs" and r: "r = Some (group_rate k rs)"
      by (auto simp: set_risk_analysis)
    from k have "k \<in> set (group_keys rs)" by (simp add: set_group_keys)
    then have "group_values k rs \<noteq> []" by (rule group_values_nonempty)
    then have "0 < length (filter (\<lambda>(a, v). a = Some k) rs)"
      by (simp add: length_group_values [symmetric])
    then show "0 < length (filter (\<lambda>(a, v). a = Some k) rs)
        \<and> r = Some (of_nat (length (filter (\<lambda>(a, v). a = Some k \<and> v = Some ''Abnormal'') rs))
                    / of_nat (length (filter (\<lambda>(a, v). a = Some k) rs)) * 100)"
      using r by (simp add: group_rate_def)
  qed
  define rates where "rates = map (\<lambda>e. group_rate (fst e) rs) ?R"
  have eq: "map snd ?R = map Some rates"
    unfolding rates_def by (auto simp: set_risk_analysis)
  have "sorted_wrt (\<lambda>a b. ranks_before (snd a) (snd b)) ?R"
    unfolding risk_analysis_rates by (rule sorted_sort_values_desc)
  then have "sorted_wrt ranks_before (map snd ?R)" by (simp add: sorted_wrt_map)
  then have "sorted_wrt (\<lambda>x y. y \<le> x) rates"
    unfolding eq by (simp add: sorted_wrt_map)
  then have "sorted (rev rates)" by (simp add: sorted_wrt_rev)
  with eq have "\<exists>rates. map snd ?R = map Some rates \<and> sorted (rev rates)" by blast
  with keys dist rate show ?thesis by blast
qed

theorem risk_analysis_spec_witness:
  "risk_analysis visits = [(''Cancer'', Some 100), (''Flu'', Some 50), (''Asthma'', Some 0)]
   \<and> 0 < length (filter (\<lambda>(a, v). a = Some ''Flu'') visits)
   \<and> distinct (map fst (risk_analysis visits))"
proof -
  have e: "risk_analysis visits = [(''Cancer'', Some 100), (''Flu'', Some 50), (''Asthma'', Some 0)]"
    by code_simp
  then have "(''Flu'', Some 50) \<in> set (risk_analysis visits)" by simp
  with risk_analysis_spec [of visits] e show ?thesis by blast
qed

lemma count_by_key:
  assumes "finite K" "\<forall>(a, v) \<in> set rs. \<exists>k \<in> K. a = Some k"
  shows "(\<Sum>k \<in> K. length (filter (\<lambda>(a, v). a = Some k \<and> P v) rs))
         = length (filter (\<lambda>(a, v). P v) rs)"
  using assms(2)
proof (induction rs)
  case Nil
  then show ?case by simp
next
  case (Cons r rs)
  obtain a v where r: "r = (a, v)" by (cases r)
  obtain k0 where k0: "k0 \<in> K" "a = Some k0" using Cons.prems r by auto
  have ih: "(\<Sum>k \<in> K. length (filter (\<lambda>(a, v). a = Some k \<and> P v) rs))
            = length (filter (\<lambda>(a, v). P v) rs)"
    using Cons by simp
  have "(\<Sum>k \<in> K. length (filter (\<lambda>(a, v). a = Some k \<and> P v) (r # rs)))
        = (\<Sum>k \<in> K. (if k = k0 then (if P v then 1 else 0) else 0)
                     + length (filter (\<lambda>(a, v). a = Some k \<and> P v) rs))"
    by (rule sum.cong) (auto simp: r k0(2))
  also have "\<dots> = (\<Sum>k \<in> K. if k = k0 then (if P v then 1 else 0) else 0)
                   + (\<Sum>k \<in> K. length (filter (\<lambda>(a, v). a = Some k \<and> P v) rs))"
    by (rule sum.distrib)
  also have "(\<Sum>k \<in> K. if k = k0 then (if P v then 1 else 0) else 0) = (if P v then 1 else (0::nat))"
    using assms(1) k0(1) by (simp add: sum.delta)
  finally show ?case using ih by (simp add: r)
qed

lemma foldr_weighted:
  "foldr (\<lambda>(k, r) acc. num_add (num_mul r (Some (w k))) acc)
      (map (\<lambda>e. (fst e, Some (f e))) es) (Some 0)
   = Some (sum_list (map (\<lambda>e. f e * w (fst e)) es))"
  by (induction es) auto

subsection \<open>Rounding to float64\<close>

text \<open>
  One rounding moves a number by at most its size times \<open>2^-53\<close>; a rate, which takes two
  roundings of a share between 0 and 1, lies within \<open>rate_tolerance\<close> of the exact
  percentage.
\<close>

lemma round_half_even_error: "\<bar>of_int (round_half_even m) - m\<bar> \<le> 1 / 2"
proof -
  define f where "f = \<lfloor>m\<rfloor>"
  have lo: "of_int f \<le> m" and hi: "m < of_int f + 1" unfolding f_def by linarith+
  show ?thesis
    unfolding round_half_even_def Let_def f_def [symmetric]
    using lo hi by (auto simp: abs_if)
qed

lemma power_int_nat: "0 \<le> k \<Longrightarrow> (2 :: rat) powi k = 2 ^ nat k"
  by (simp add: power_int_def)

lemma binade_le:
  assumes "0 < x"
  shows "2 powi binade x \<le> x"
proof -
  obtain p q where pq: "quotient_of x = (p, q)" by (cases "quotient_of x")
  have q: "0 < q" using pq by (rule quotient_of_denom_pos)
  have x: "x = of_int p / of_int q" using pq by (rule quotient_of_div)
  have p: "0 < p" using assms q unfolding x by (simp add: zero_less_divide_iff)
  define k where "k = bitlen p - bitlen q"
  have bp: "1 \<le> bitlen p" using p bitlen_eq_zero_iff [of p] bitlen_nonneg [of p] by linarith
  have bq: "1 \<le> bitlen q" using q bitlen_eq_zero_iff [of q] bitlen_nonneg [of q] by linarith
  have b: "binade x = (if x < 2 powi k then k - 1 else k)"
    by (simp add: binade_def pq k_def)
  show ?thesis
  proof (cases "x < 2 powi k")
    case False
    then show ?thesis by (simp add: b)
  next
    case True
    have "(2 :: int) ^ nat (bitlen p - 1) \<le> p" using bitlen_bounds [OF p] by simp
    then have "(of_int ((2 :: int) ^ nat (bitlen p - 1)) :: rat) \<le> of_int p"
      by (simp only: of_int_le_iff)
    then have n: "(2 :: rat) powi (bitlen p - 1) \<le> of_int p"
      using bp by (simp add: power_int_nat)
    have "q < (2 :: int) ^ nat (bitlen q)" using bitlen_bounds [OF q] by simp
    then have "(of_int q :: rat) < of_int ((2 :: int) ^ nat (bitlen q))"
      by (simp only: of_int_less_iff)
    then have d: "(of_int q :: rat) \<le> 2 powi bitlen q"
      using bq by (simp add: power_int_nat)
    have qpos: "(0 :: rat) < of_int q" using q by simp
    have "k - 1 = (bitlen p - 1) - bitlen q" by (simp add: k_def)
    then have "(2 :: rat) powi (k - 1) = 2 powi (bitlen p - 1) / 2 powi bitlen q"
      by (simp only: power_int_diff [of "2 :: rat", simplified])
    also have "\<dots> \<le> of_int p / 2 powi bitlen q"
      using n by (simp add: divide_right_mono)
    also have "\<dots> \<le> of_int p / of_int q"
      using d qpos p by (simp add: frac_le)
    finally have "2 powi (k - 1) \<le> x" unfolding x .
    moreover have "binade x = k - 1" using True by (simp add: b)
    ultimately show ?thesis by simp
  qed
qed

lemma float64_error: "\<bar>float64 x - x\<bar> \<le> \<bar>x\<bar> * unit_roundoff"
proof (cases "x = 0")
  case True
  then show ?thesis by (simp add: float64_def)
next
  case False
  define a where "a = \<bar>x\<bar>"
  define e where "e = binade a"
  define m where "m = a * 2 powi (52 - e)"
  define r where "r = round_half_even m"
  have a0: "0 < a" using False by (simp add: a_def)
  have le: "2 powi e \<le> a" unfolding e_def using a0 by (rule binade_le)
  have f: "float64 x = sgn x * of_int r * 2 powi (e - 52)"
    using False by (simp add: float64_def Let_def a_def e_def m_def r_def)
  have bk: "m * 2 powi (e - 52) = a"
    unfolding m_def by (simp add: power_int_diff)
  have xa: "x = sgn x * a" by (simp add: a_def sgn_mult_abs)
  have "float64 x - x = sgn x * ((of_int r - m) * 2 powi (e - 52))"
    unfolding f using xa bk by (simp add: algebra_simps)
  then have "\<bar>float64 x - x\<bar> = \<bar>of_int r - m\<bar> * 2 powi (e - 52)"
    using False by (simp add: abs_mult abs_sgn_eq)
  also have "\<dots> \<le> 1 / 2 * 2 powi (e - 52)"
    using round_half_even_error [of m] unfolding r_def
    by (intro mult_right_mono) simp_all
  also have "\<dots> = 2 powi e * unit_roundoff"
    by (simp add: power_int_diff unit_roundoff_def)
  also have "\<dots> \<le> a * unit_roundoff"
    using le by (intro mult_right_mono) (simp_all add: unit_roundoff_def)
  finally show ?thesis by (simp add: a_def)
qed

lemma percentage_error:
  assumes "0 \<le> t" "t \<le> 1"
  shows "\<bar>float64 (float64 t * 100) - t * 100\<bar> \<le> rate_tolerance"
proof -
  define u where "u = unit_roundoff"
  have u0: "0 \<le> u" by (simp add: u_def unit_roundoff_def)
  define t1 where "t1 = float64 t"
  have e1: "\<bar>t1 - t\<bar> \<le> u" 
  proof -
    have "\<bar>t1 - t\<bar> \<le> \<bar>t\<bar> * u" unfolding t1_def u_def by (rule float64_error)
    also have "\<dots> \<le> 1 * u" using assms u0 by (intro mult_right_mono) simp_all
    finally show ?thesis by simp
  qed
  then have b1: "\<bar>t1\<bar> \<le> 1 + u" using assms by linarith
  have "\<bar>float64 (t1 * 100) - t1 * 100\<bar> \<le> \<bar>t1 * 100\<bar> * u"
    unfolding u_def by (rule float64_error)
  also have "\<dots> = 100 * (\<bar>t1\<bar> * u)" by (simp add: abs_mult)
  also have "\<bar>t1\<bar> * u \<le> (1 + u) * u" using b1 u0 by (rule mult_right_mono)
  finally have e2: "\<bar>float64 (t1 * 100) - t1 * 100\<bar> \<le> 100 * ((1 + u) * u)" by simp
  have "float64 (t1 * 100) - t * 100 = (float64 (t1 * 100) - t1 * 100) + 100 * (t1 - t)"
    by simp
  then have "\<bar>float64 (t1 * 100) - t * 100\<bar>
      \<le> \<bar>float64 (t1 * 100) - t1 * 100\<bar> + \<bar>100 * (t1 - t)\<bar>"
    by (simp only: abs_triangle_ineq)
  also have "\<bar>100 * (t1 - t)\<bar> = 100 * \<bar>t1 - t\<bar>" by (simp only: abs_mult)
  finally have "\<bar>float64 (t1 * 100) - t * 100\<bar>
      \<le> \<bar>float64 (t1 * 100) - t1 * 100\<bar> + 100 * \<bar>t1 - t\<bar>" .
  also have "\<dots> \<le> 100 * ((1 + u) * u) + 100 * u"
    using e1 e2 by (intro add_mono mult_left_mono) simp_all
  also have "\<dots> = rate_tolerance" by (simp add: rate_tolerance_def u_def algebra_simps power2_eq_square)
  finally show ?thesis by (simp add: t1_def)
qed


lemma abnormal_le_length: "abnormal_count xs \<le> length xs"
  by (simp add: abnormal_count_def)

lemma abnormal_rate64_error:
  assumes "xs \<noteq> []"
  shows "\<exists>r e. abnormal_rate64 xs = Some r \<and> abnormal_rate xs = Some e \<and> \<bar>r - e\<bar> \<le> rate_tolerance"
proof -
  let ?t = "(of_nat (abnormal_count xs) / of_nat (length xs) :: rat)"
  have n: "(0 :: rat) < of_nat (length xs)" using assms by simp
  have "0 \<le> ?t" by simp
  moreover have "?t \<le> 1" using n abnormal_le_length [of xs] by simp
  ultimately have "\<bar>float64 (float64 ?t * 100) - ?t * 100\<bar> \<le> rate_tolerance"
    by (rule percentage_error)
  then show ?thesis using assms by (simp add: abnormal_rate64_def abnormal_rate_def)
qed

lemma risk_analysis64_rates:
  "risk_analysis64 rs = sort_values_desc (map (\<lambda>k. (k, Some (group_rate64 k rs))) (group_keys rs))"
proof -
  have "map (\<lambda>k. (k, abnormal_rate64 (group_values k rs))) (group_keys rs)
        = map (\<lambda>k. (k, Some (group_rate64 k rs))) (group_keys rs)"
  proof (rule map_cong [OF refl])
    fix k assume "k \<in> set (group_keys rs)"
    then have "group_values k rs \<noteq> []" by (rule group_values_nonempty)
    then show "(k, abnormal_rate64 (group_values k rs)) = (k, Some (group_rate64 k rs))"
      by (simp add: abnormal_rate64_def group_rate64_def)
  qed
  then show ?thesis unfolding risk_analysis64_def by (rule arg_cong)
qed

lemma group_rate64_error:
  assumes "k \<in> set (group_keys rs)"
  shows "\<bar>group_rate64 k rs - group_rate k rs\<bar> \<le> rate_tolerance"
proof -
  have "group_values k rs \<noteq> []" using assms by (rule group_values_nonempty)
  from abnormal_rate64_error [OF this] show ?thesis
    using \<open>group_values k rs \<noteq> []\<close>
    by (simp add: abnormal_rate64_def abnormal_rate_def group_rate64_def group_rate_def
        abnormal_group_values length_group_values)
qed

lemma weighted64_sum:
  "weighted_overall_rate64 rs
     = Some (\<Sum>k \<in> set (group_keys rs). group_rate64 k rs * group_share k rs)"
proof -
  let ?R = "risk_analysis64 rs"
  have Req: "?R = map (\<lambda>e. (fst e, Some (group_rate64 (fst e) rs))) ?R"
    by (rule map_idI [symmetric]) (auto simp: risk_analysis64_rates set_sort_values_desc)
  have "weighted_overall_rate64 rs =
      foldr (\<lambda>(k, r) acc. num_add (num_mul r (Some (group_share k rs))) acc)
        (map (\<lambda>e. (fst e, Some (group_rate64 (fst e) rs))) ?R) (Some 0)"
    unfolding weighted_overall_rate64_def using Req by simp
  also have "\<dots> = Some (sum_list (map (\<lambda>e. group_rate64 (fst e) rs * group_share (fst e) rs) ?R))"
    by (rule foldr_weighted)
  also have "sum_list (map (\<lambda>e. group_rate64 (fst e) rs * group_share (fst e) rs) ?R)
      = sum_list (map (\<lambda>e. group_rate64 (fst e) rs * group_share (fst e) rs)
          (map (\<lambda>k. (k, Some (group_rate64 k rs))) (group_keys rs)))"
    unfolding risk_analysis64_rates by (rule sum_sort_values_desc)
  also have "\<dots> = sum_list (map (\<lambda>k. group_rate64 k rs * group_share k rs) (group_keys rs))"
    by (simp add: o_def)
  also have "\<dots> = (\<Sum>k \<in> set (group_keys rs). group_rate64 k rs * group_share k rs)"
    by (rule sum_list_distinct_conv_sum_set) (rule distinct_group_keys)
  finally show ?thesis .
qed

lemma exact_weighted_sum:
  assumes "\<forall>(a, v) \<in> set rs. a \<noteq> None" and "rs \<noteq> []"
  shows "(\<Sum>k \<in> set (group_keys rs). group_rate k rs * group_share k rs)
         = of_nat (length (filter (\<lambda>(a, v). v = Some ''Abnormal'') rs)) / of_nat (length rs) * 100"
proof -
  let ?K = "set (group_keys rs)"
  let ?n = "\<lambda>k. length (filter (\<lambda>(a, v). a = Some k) rs)"
  let ?a = "\<lambda>k. length (filter (\<lambda>(a, v). a = Some k \<and> v = Some ''Abnormal'') rs)"
  have "(\<Sum>k \<in> ?K. group_rate k rs * group_share k rs)
        = (\<Sum>k \<in> ?K. of_nat (?a k) * (100 / of_nat (length rs)))"
  proof (rule sum.cong [OF refl])
    fix k assume "k \<in> ?K"
    then have "group_values k rs \<noteq> []" by (rule group_values_nonempty)
    then have "(of_nat (?n k) :: rat) \<noteq> 0" by (simp add: length_group_values [symmetric])
    then show "group_rate k rs * group_share k rs = of_nat (?a k) * (100 / of_nat (length rs))"
      by (simp add: group_rate_def group_share_def length_group_values)
  qed
  also have "\<dots> = of_nat (\<Sum>k \<in> ?K. ?a k) * (100 / of_nat (length rs))"
    unfolding of_nat_sum by (rule sum_distrib_right [symmetric])
  also have "(\<Sum>k \<in> ?K. ?a k) = length (filter (\<lambda>(a, v). v = Some ''Abnormal'') rs)"
  proof (rule count_by_key)
    show "finite ?K" by simp
    show "\<forall>(a, v) \<in> set rs. \<exists>k \<in> ?K. a = Some k"
      using assms(1) by (force simp: set_group_keys)
  qed
  finally show ?thesis by simp
qed

lemma shares_sum_to_one:
  assumes "\<forall>(a, v) \<in> set rs. a \<noteq> None" and "rs \<noteq> []"
  shows "(\<Sum>k \<in> set (group_keys rs). group_share k rs) = 1"
proof -
  let ?K = "set (group_keys rs)"
  have "(\<Sum>k \<in> ?K. length (filter (\<lambda>(a, v). a = Some k \<and> True) rs))
        = length (filter (\<lambda>(a, v). True) rs)"
  proof (rule count_by_key)
    show "finite ?K" by simp
    show "\<forall>(a, v) \<in> set rs. \<exists>k \<in> ?K. a = Some k"
      using assms(1) by (force simp: set_group_keys)
  qed
  then have c: "(\<Sum>k \<in> ?K. length (filter (\<lambda>(a, v). a = Some k) rs)) = length rs" by simp
  have "(\<Sum>k \<in> ?K. group_share k rs)
        = (\<Sum>k \<in> ?K. of_nat (length (filter (\<lambda>(a, v). a = Some k) rs))) / of_nat (length rs)"
    by (simp add: group_share_def length_group_values sum_divide_distrib)
  also have "\<dots> = of_nat (\<Sum>k \<in> ?K. length (filter (\<lambda>(a, v). a = Some k) rs)) / of_nat (length rs)"
    by simp
  also have "\<dots> = 1" unfolding c using assms(2) by simp
  finally show ?thesis .
qed

text \<open>
  C8, as amended. For every table with a grouping column that has no missing value (with
  two groups or any other number of them, whatever the outcome values are) and at least
  one row, the float64 rates of the groups, each weighted by the share of the rows that
  the group holds and summed (products and sum taken exactly), and the float64 global
  abnormal rate computed over the whole outcome column differ by at most
  \<open>2 * rate_tolerance\<close>, which is less than \<open>10^-13\<close>: each of the two lies within
  \<open>rate_tolerance\<close> of the exact percentage of Abnormal rows. In exact arithmetic the
  weighted rates and the global rate are equal.
\<close>

theorem weighted_rate_matches:
  assumes "\<forall>(a, v) \<in> set rs. a \<noteq> None" and "rs \<noteq> []"
  shows "\<exists>w g d. weighted_overall_rate64 rs = Some w \<and> abnormal_pct64 rs = Some g
           \<and> num_dist (weighted_overall_rate64 rs) (abnormal_pct64 rs) = Some d
           \<and> d \<le> 2 * rate_tolerance
           \<and> \<bar>w - of_nat (length (filter (\<lambda>(a, v). v = Some ''Abnormal'') rs))
                    / of_nat (length rs) * 100\<bar> \<le> rate_tolerance
           \<and> \<bar>g - of_nat (length (filter (\<lambda>(a, v). v = Some ''Abnormal'') rs))
                    / of_nat (length rs) * 100\<bar> \<le> rate_tolerance
           \<and> weighted_overall_rate rs = abnormal_pct rs
           \<and> abnormal_pct rs = Some (of_nat (length (filter (\<lambda>(a, v). v = Some ''Abnormal'') rs))
                    / of_nat (length rs) * 100)"
proof -
  let ?K = "set (group_keys rs)"
  let ?x = "(of_nat (length (filter (\<lambda>(a, v). v = Some ''Abnormal'') rs))
               / of_nat (length rs) * 100 :: rat)"
  define w where "w = (\<Sum>k \<in> ?K. group_rate64 k rs * group_share k rs)"
  have w: "weighted_overall_rate64 rs = Some w" unfolding w_def by (rule weighted64_sum)
  have sh0: "0 \<le> group_share k rs" for k by (simp add: group_share_def)
  have "w - ?x = (\<Sum>k \<in> ?K. group_rate64 k rs * group_share k rs)
                 - (\<Sum>k \<in> ?K. group_rate k rs * group_share k rs)"
    unfolding w_def exact_weighted_sum [OF assms] ..
  also have "\<dots> = (\<Sum>k \<in> ?K. (group_rate64 k rs - group_rate k rs) * group_share k rs)"
    by (simp add: sum_subtractf left_diff_distrib)
  finally have "\<bar>w - ?x\<bar> \<le> (\<Sum>k \<in> ?K. \<bar>(group_rate64 k rs - group_rate k rs) * group_share k rs\<bar>)"
    by (simp only: sum_abs)
  also have "\<dots> \<le> (\<Sum>k \<in> ?K. rate_tolerance * group_share k rs)"
  proof (rule sum_mono)
    fix k assume "k \<in> ?K"
    then have "\<bar>group_rate64 k rs - group_rate k rs\<bar> \<le> rate_tolerance"
      by (rule group_rate64_error)
    then show "\<bar>(group_rate64 k rs - group_rate k rs) * group_share k rs\<bar>
               \<le> rate_tolerance * group_share k rs"
      using sh0 [of k] by (simp add: abs_mult mult_right_mono)
  qed
  also have "\<dots> = rate_tolerance * (\<Sum>k \<in> ?K. group_share k rs)"
    by (simp add: sum_distrib_left)
  also have "\<dots> = rate_tolerance" by (simp add: shares_sum_to_one [OF assms])
  finally have we: "\<bar>w - ?x\<bar> \<le> rate_tolerance" .
  have ne: "map snd rs \<noteq> []" using assms(2) by simp
  have cnt: "abnormal_count (map snd rs) = length (filter (\<lambda>(a, v). v = Some ''Abnormal'') rs)"
  proof -
    have "filter (\<lambda>v. v = Some ''Abnormal'') (map snd rs)
          = map snd (filter (\<lambda>(a, v). v = Some ''Abnormal'') rs)"
      by (induction rs) auto
    then show ?thesis by (simp add: abnormal_count_def)
  qed
  have p: "abnormal_pct rs = Some ?x"
    using assms(2) by (simp add: abnormal_pct_def abnormal_rate_def cnt)
  obtain g where g: "abnormal_pct64 rs = Some g" and ge: "\<bar>g - ?x\<bar> \<le> rate_tolerance"
    using abnormal_rate64_error [OF ne] p by (auto simp: abnormal_pct64_def abnormal_pct_def)
  have d: "\<bar>w - g\<bar> \<le> 2 * rate_tolerance" using we ge by linarith
  have ex: "weighted_overall_rate rs = abnormal_pct rs"
  proof -
    let ?R = "risk_analysis rs"
    have Req: "?R = map (\<lambda>e. (fst e, Some (group_rate (fst e) rs))) ?R"
      by (rule map_idI [symmetric]) (auto simp: set_risk_analysis)
    have "weighted_overall_rate rs =
        foldr (\<lambda>(k, r) acc. num_add (num_mul r (Some (group_share k rs))) acc)
          (map (\<lambda>e. (fst e, Some (group_rate (fst e) rs))) ?R) (Some 0)"
      unfolding weighted_overall_rate_def using Req by simp
    also have "\<dots> = Some (sum_list (map (\<lambda>e. group_rate (fst e) rs * group_share (fst e) rs) ?R))"
      by (rule foldr_weighted)
    also have "sum_list (map (\<lambda>e. group_rate (fst e) rs * group_share (fst e) rs) ?R)
        = sum_list (map (\<lambda>e. group_rate (fst e) rs * group_share (fst e) rs)
            (map (\<lambda>k. (k, Some (group_rate k rs))) (group_keys rs)))"
      unfolding risk_analysis_rates by (rule sum_sort_values_desc)
    also have "\<dots> = sum_list (map (\<lambda>k. group_rate k rs * group_share k rs) (group_keys rs))"
      by (simp add: o_def)
    also have "\<dots> = (\<Sum>k \<in> ?K. group_rate k rs * group_share k rs)"
      by (rule sum_list_distinct_conv_sum_set) (rule distinct_group_keys)
    also have "\<dots> = ?x" by (rule exact_weighted_sum [OF assms])
    finally show ?thesis using p by simp
  qed
  have "num_dist (weighted_overall_rate64 rs) (abnormal_pct64 rs) = Some \<bar>w - g\<bar>"
    by (simp add: w g)
  with w g d we ge ex p show ?thesis by blast
qed

theorem weighted_rate_matches_witness:
  "length (group_keys one_and_three) = 2
   \<and> num_dist (weighted_overall_rate64 one_and_three) (abnormal_pct64 one_and_three)
       = Some (1 / 2 ^ 48)
   \<and> (1 / 2 ^ 48 :: rat) \<le> 2 * rate_tolerance
   \<and> 2 * rate_tolerance < 1 / 10 ^ 13"
proof -
  have a: "\<forall>(a, v) \<in> set one_and_three. a \<noteq> None" by (simp add: one_and_three_def)
  have b: "one_and_three \<noteq> []" by (simp add: one_and_three_def)
  have c: "length (group_keys one_and_three) = 2" by code_simp
  have d: "num_dist (weighted_overall_rate64 one_and_three) (abnormal_pct64 one_and_three)
             = Some (1 / 2 ^ 48)" by code_simp
  have t: "2 * rate_tolerance < 1 / 10 ^ 13"
    by code_simp
  from weighted_rate_matches [OF a b] d have "(1 / 2 ^ 48 :: rat) \<le> 2 * rate_tolerance"
    by auto
  with c d t show ?thesis by simp
qed

text \<open>
  The claim as first stated fails in two ways. When a row has no group, \<open>groupby\<close> drops
  that row while the global rate counts it: with the groups Flu and Asthma and a third
  visit without medical condition, the weighted rates sum to 100/3 and the global rate
  is about 66.67. And without any missing value the float64 rates need not sum to the
  float64 global rate exactly: with one Asthma visit and three Flu visits of which one is
  Abnormal, the rate of Flu is the float64 value next below 100/3, the weighted sum is
  \<open>25 - 2^-48\<close> and the global rate is 25.
\<close>

theorem weighted_rate_counterexample:
  "length (group_keys visits_missing_key) = 2
   \<and> risk_analysis64 visits_missing_key = [(''Flu'', Some 100), (''Asthma'', Some 0)]
   \<and> weighted_overall_rate64 visits_missing_key = Some (100 / 3)
   \<and> abnormal_pct64 visits_missing_key = Some (2345624805922133 / 35184372088832)
   \<and> weighted_overall_rate64 visits_missing_key \<noteq> abnormal_pct64 visits_missing_key
   \<and> weighted_overall_rate visits_missing_key = Some (100 / 3)
   \<and> abnormal_pct visits_missing_key = Some (200 / 3)
   \<and> weighted_overall_rate visits_missing_key \<noteq> abnormal_pct visits_missing_key
   \<and> length (group_keys one_and_three) = 2
   \<and> risk_analysis64 one_and_three =
       [(''Flu'', Some (2345624805922133 / 70368744177664)), (''Asthma'', Some 0)]
   \<and> weighted_overall_rate64 one_and_three = Some (25 - 1 / 2 ^ 48)
   \<and> abnormal_pct64 one_and_three = Some 25
   \<and> weighted_overall_rate64 one_and_three \<noteq> abnormal_pct64 one_and_three"
  by code_simp

section \<open>Properties of the preprocessing page\<close>





text \<open>
  A run that fails in "Convert to datetime" or in "Extract Date Features" shows the
  error and goes on to the end of the script, which stores the untouched working copy.
\<close>

lemma convert_failure:
  assumes "healthcare_data s = Some data" and "map_of data c = Some col"
    and "to_datetime lib col = Inl e" and "is_date_name c" and "\<forall>ts. col \<noteq> DateCol ts"
  shows "page_run lib (Click_convert_to_datetime c) s =
     \<lparr>session_after = s\<lparr>healthcare_data_processed := Some data\<rparr>,
      notices = [Err_converting c e], rerun = False\<rparr>"
  using assms by (cases col) (simp_all add: page_run_def convert_to_datetime_def)

lemma extract_failure:
  assumes "healthcare_data s = Some data" and "map_of data c = Some col"
    and "to_datetime lib col = Inl e" and "is_date_name c" and "\<forall>ts. col \<noteq> DateCol ts"
  shows "page_run lib (Click_extract_date_features c) s =
     \<lparr>session_after = s\<lparr>healthcare_data_processed := Some data\<rparr>,
      notices = [Err_date_features e], rerun = False\<rparr>"
  using assms by (cases col) (simp_all add: page_run_def extract_date_features_def)

text \<open>
  The same on the whole script, for a table without object column; and the run of
  "Calculate Length of Stay" whose first conversion succeeds and whose second one
  raises: the end of the script stores the working copy with the admission column
  already converted.
\<close>

lemma script_run_no_object:
  assumes "healthcare_data s = Some data" and "categorical_cols data = []"
  shows "script_run lib ck s = page_run lib ck s"
  using assms by (simp add: script_run_def)

lemma convert_failure_script:
  assumes "healthcare_data s = Some data" and "categorical_cols data = []"
    and "map_of data c = Some col"
    and "to_datetime lib col = Inl e" and "is_date_name c" and "\<forall>ts. col \<noteq> DateCol ts"
  shows "script_run lib (Click_convert_to_datetime c) s =
     \<lparr>session_after = s\<lparr>healthcare_data_processed := Some data\<rparr>,
      notices = [Err_converting c e], rerun = False\<rparr>"
  using assms(3-) unfolding script_run_no_object [OF assms(1,2)]
  by (rule convert_failure [OF assms(1)])

lemma extract_failure_script:
  assumes "healthcare_data s = Some data" and "categorical_cols data = []"
    and "map_of data c = Some col"
    and "to_datetime lib col = Inl e" and "is_date_name c" and "\<forall>ts. col \<noteq> DateCol ts"
  shows "script_run lib (Click_extract_date_features c) s =
     \<lparr>session_after = s\<lparr>healthcare_data_processed := Some data\<rparr>,
      notices = [Err_date_features e], rerun = False\<rparr>"
  using assms(3-) unfolding script_run_no_object [OF assms(1,2)]
  by (rule extract_failure [OF assms(1)])

lemma length_of_stay_failure:
  assumes "healthcare_data s = Some data" and "categorical_cols data = []"
    and "find_stay_columns data = (Some a, Some d)"
    and "to_datetime_column lib data a = Inr ta"
    and "to_datetime_column lib (AList.update a (DateCol ta) data) d = Inl e"
  shows "script_run lib Click_length_of_stay s =
     \<lparr>session_after = s\<lparr>healthcare_data_processed := Some (AList.update a (DateCol ta) data)\<rparr>,
      notices = [Err_length_of_stay e], rerun = False\<rparr>"
  unfolding script_run_no_object [OF assms(1,2)]
  using assms(1,3-) by (simp add: page_run_def calculate_length_of_stay_def)

lemma wf_stay_frame: "wf_frame stay_frame \<and> categorical_cols stay_frame = []"
  by code_simp

text \<open>
  C9. The claim is that a failing transform leaves both stored tables as they were. The
  sample table has no object column, so the whole script runs: a plain run after the
  upload reaches line 567 and stores the uploaded table as the processed table. Its
  admission dates are numbers, which \<open>pd.to_datetime\<close> converts, and its discharge column
  is bool, on which \<open>pd.to_datetime\<close> raises. "Calculate Length of Stay" converts the
  admission column of the working copy, fails on the discharge column and shows the
  error, and the end of the script then stores the half-converted working copy: the
  processed table is no longer what it was. "Convert to datetime" on the same discharge
  column fails and leaves the session as it was.
\<close>

theorem length_of_stay_failure_example:
  "script_run sample_library No_click stay_upload =
     \<lparr>session_after = stay_session, notices = [], rerun = False\<rparr>
   \<and> script_run sample_library Click_length_of_stay stay_session =
     \<lparr>session_after =
        \<lparr>healthcare_data = Some stay_frame,
         healthcare_data_processed =
           Some [(''date_of_admission'', DateCol [Some 20240101, Some 20240102]),
                 (''discharge_date'', BoolCol [True, False]),
                 (''billing_amount'', NumCol [Some 120, Some 80])]\<rparr>,
      notices = [Err_length_of_stay ''dtype bool cannot be converted to datetime64[ns]''],
      rerun = False\<rparr>
   \<and> healthcare_data_processed (session_after (script_run sample_library Click_length_of_stay stay_session))
       \<noteq> healthcare_data_processed stay_session
   \<and> script_run sample_library (Click_convert_to_datetime ''discharge_date'') stay_session =
     \<lparr>session_after = stay_session,
      notices = [Err_converting ''discharge_date''
                   ''dtype bool cannot be converted to datetime64[ns]''],
      rerun = False\<rparr>"
  by code_simp

end
